theory Spec2Isabelle
  imports Main "HOL-Library.AList"
begin

section \<open>Conventions of the embedding\<close>

text \<open>
  The three headers \<^verbatim>\<open>MyCachePolicy.h\<close>, \<^verbatim>\<open>MyLruCache.h\<close> and \<^verbatim>\<open>MyLfuCache.h\<close> are
  embedded with an explicit store: every \<^verbatim>\<open>std::make_shared\<close> appends one node to a
  list of nodes and the node's address is its index in that list. A
  \<^verbatim>\<open>std::shared_ptr\<close> is a \<open>nat option\<close>, \<open>None\<close> being \<^verbatim>\<open>nullptr\<close>. Dereferencing a null
  pointer, dividing by zero and indexing a vector out of range are undefined behaviour in
  C++; the embedding returns them as errors.

  Fields keep the source's names with the class as a prefix and without the trailing
  underscore (\<^verbatim>\<open>capacity_\<close> of \<^verbatim>\<open>MyLruCache\<close> is \<open>lru_capacity\<close>), because three classes
  share the names \<^verbatim>\<open>capacity_\<close> and \<^verbatim>\<open>nodeMap_\<close>. Member functions carry the class as a
  prefix too. A \<^verbatim>\<open>std::unordered_map\<close> is an association list with distinct keys, in
  the order in which the keys were inserted. C++ leaves the order of its iterators to
  the implementation; the one loop whose effect depends on that order, the rebalance of
  the LFU engine, is embedded a second time with the order as a parameter.

  \<^verbatim>\<open>int\<close> fields are unbounded integers. Signed overflow is undefined in C++ and the
  embedding has no error for it: what is proved of a run holds of the program as long as
  no \<^verbatim>\<open>int\<close> of that run leaves the 32-bit range (\<^verbatim>\<open>curTotalNum_\<close>, which the
  constructor of the LFU engine leaves indeterminate, may start next to the bound). The
  conversions between \<^verbatim>\<open>int\<close> and \<^verbatim>\<open>size_t\<close> that the source performs implicitly are
  written out for a 64-bit \<^verbatim>\<open>size_t\<close> and a 32-bit \<^verbatim>\<open>int\<close>.
\<close>

datatype error = NullDeref | DivByZero | OutOfRange

definition bind_err :: "error + 'a \<Rightarrow> ('a \<Rightarrow> error + 'b) \<Rightarrow> error + 'b" where
  "bind_err m f = (case m of Inl e \<Rightarrow> Inl e | Inr x \<Rightarrow> f x)"

definition to_size_t :: "int \<Rightarrow> int" where
  "to_size_t x = x mod 2 ^ 64"

definition to_int32 :: "int \<Rightarrow> int" where
  "to_int32 x = (x + 2 ^ 31) mod 2 ^ 32 - 2 ^ 31"

section \<open>MyLruCache.h: the LRU engine\<close>

record ('k, 'v) MyLruNode =
  lru_key :: 'k
  lru_value :: 'v
  lru_visCount :: nat
  lru_prev :: "nat option"
  lru_next :: "nat option"

record ('k, 'v) MyLruCache =
  lru_capacity :: int
  lru_nodeMap :: "('k \<times> nat) list"
  lru_dummyHead :: nat
  lru_dummyTail :: nat
  lru_nodes :: "('k, 'v) MyLruNode list"

text \<open>\<^verbatim>\<open>MyLruNode(Key key, Value value)\<close>, line 26.\<close>

definition MyLruNode :: "'k \<Rightarrow> 'v \<Rightarrow> ('k, 'v) MyLruNode" where
  "MyLruNode key value =
     \<lparr>lru_key = key, lru_value = value, lru_visCount = 0, lru_prev = None, lru_next = None\<rparr>"

text \<open>Stores through a node pointer.\<close>

definition lru_set_prev :: "nat \<Rightarrow> nat option \<Rightarrow> ('k, 'v) MyLruCache \<Rightarrow> ('k, 'v) MyLruCache" where
  "lru_set_prev a p s = s\<lparr>lru_nodes := (lru_nodes s)[a := (lru_nodes s ! a)\<lparr>lru_prev := p\<rparr>]\<rparr>"

definition lru_set_next :: "nat \<Rightarrow> nat option \<Rightarrow> ('k, 'v) MyLruCache \<Rightarrow> ('k, 'v) MyLruCache" where
  "lru_set_next a n s = s\<lparr>lru_nodes := (lru_nodes s)[a := (lru_nodes s ! a)\<lparr>lru_next := n\<rparr>]\<rparr>"

definition lru_setValue :: "nat \<Rightarrow> 'v \<Rightarrow> ('k, 'v) MyLruCache \<Rightarrow> ('k, 'v) MyLruCache" where
  "lru_setValue a v s = s\<lparr>lru_nodes := (lru_nodes s)[a := (lru_nodes s ! a)\<lparr>lru_value := v\<rparr>]\<rparr>"

text \<open>
  \<^verbatim>\<open>initialzeList\<close>, lines 107-112, and the constructor, lines 62-64. \<open>dk\<close> and \<open>dv\<close>
  are \<^verbatim>\<open>Key()\<close> and \<^verbatim>\<open>Value()\<close>, the contents of the two sentinels.
\<close>

definition MyLruCache :: "'k \<Rightarrow> 'v \<Rightarrow> int \<Rightarrow> ('k, 'v) MyLruCache" where
  "MyLruCache dk dv capacity =
     \<lparr>lru_capacity = capacity, lru_nodeMap = [], lru_dummyHead = 0, lru_dummyTail = 1,
      lru_nodes = [(MyLruNode dk dv)\<lparr>lru_next := Some 1\<rparr>, (MyLruNode dk dv)\<lparr>lru_prev := Some 0\<rparr>]\<rparr>"

text \<open>
  \<^verbatim>\<open>removeNode\<close>, lines 124-127: two stores, the second reading the store the first one
  left.
\<close>

definition lru_removeNode :: "nat \<Rightarrow> ('k, 'v) MyLruCache \<Rightarrow> error + ('k, 'v) MyLruCache" where
  "lru_removeNode node s =
     (case lru_next (lru_nodes s ! node) of
        None \<Rightarrow> Inl NullDeref
      | Some n \<Rightarrow>
          let s1 = lru_set_prev n (lru_prev (lru_nodes s ! node)) s in
          (case lru_prev (lru_nodes s1 ! node) of
             None \<Rightarrow> Inl NullDeref
           | Some p \<Rightarrow> Inr (lru_set_next p (lru_next (lru_nodes s1 ! node)) s1)))"

text \<open>
  \<^verbatim>\<open>insertNode\<close>, lines 129-134. Line 133 reads \<^verbatim>\<open>dummyTail_ - prev_ = node;\<close>, which is
  not a statement C++ accepts; it is embedded as the store \<^verbatim>\<open>dummyTail_->prev_ = node\<close>
  that the three lines before it prepare.
\<close>

definition lru_insertNode :: "nat \<Rightarrow> ('k, 'v) MyLruCache \<Rightarrow> error + ('k, 'v) MyLruCache" where
  "lru_insertNode node s =
     (let s1 = lru_set_next node (Some (lru_dummyTail s)) s;
          s2 = lru_set_prev node (lru_prev (lru_nodes s1 ! lru_dummyTail s1)) s1
      in case lru_prev (lru_nodes s2 ! lru_dummyTail s2) of
           None \<Rightarrow> Inl NullDeref
         | Some p \<Rightarrow>
             let s3 = lru_set_next p (Some node) s2
             in Inr (lru_set_prev (lru_dummyTail s3) (Some node) s3))"

text \<open>\<^verbatim>\<open>moveToMostRecent\<close>, lines 119-122.\<close>

definition lru_moveToMostRecent :: "nat \<Rightarrow> ('k, 'v) MyLruCache \<Rightarrow> error + ('k, 'v) MyLruCache" where
  "lru_moveToMostRecent node s = bind_err (lru_removeNode node s) (lru_insertNode node)"

text \<open>\<^verbatim>\<open>updateExistNode\<close>, lines 114-117.\<close>

definition lru_updateExistNode :: "nat \<Rightarrow> 'v \<Rightarrow> ('k, 'v) MyLruCache \<Rightarrow> error + ('k, 'v) MyLruCache" where
  "lru_updateExistNode node value s = lru_moveToMostRecent node (lru_setValue node value s)"

text \<open>
  \<^verbatim>\<open>evictLeastRecent\<close>, lines 144-148. The local \<^verbatim>\<open>node\<close> is declared as a reference
  (\<^verbatim>\<open>nodeptr&\<close>, read as \<^verbatim>\<open>NodePtr&\<close>) to the field \<^verbatim>\<open>dummyHead_->next_\<close>.
  \<^verbatim>\<open>removeNode\<close> takes its argument by value, so it unlinks the node that was first; its
  second store overwrites \<^verbatim>\<open>dummyHead_->next_\<close>, and \<^verbatim>\<open>node->getKey()\<close> on line 147
  reads the field again: the key erased is the key of the node that is first after the
  removal.
\<close>

definition lru_evictLeastRecent :: "('k, 'v) MyLruCache \<Rightarrow> error + ('k, 'v) MyLruCache" where
  "lru_evictLeastRecent s =
     (case lru_next (lru_nodes s ! lru_dummyHead s) of
        None \<Rightarrow> Inl NullDeref
      | Some first \<Rightarrow>
          bind_err (lru_removeNode first s) (\<lambda>s1.
            case lru_next (lru_nodes s1 ! lru_dummyHead s1) of
              None \<Rightarrow> Inl NullDeref
            | Some node \<Rightarrow>
                Inr (s1\<lparr>lru_nodeMap := AList.delete (lru_key (lru_nodes s1 ! node)) (lru_nodeMap s1)\<rparr>)))"

text \<open>
  \<^verbatim>\<open>addNode\<close>, lines 136-142. The comparison of \<^verbatim>\<open>nodeMap_.size()\<close> with the \<^verbatim>\<open>int\<close>
  capacity converts the capacity to \<^verbatim>\<open>size_t\<close>.
\<close>

definition lru_addNode :: "'k \<Rightarrow> 'v \<Rightarrow> ('k, 'v) MyLruCache \<Rightarrow> error + ('k, 'v) MyLruCache" where
  "lru_addNode key value s =
     (let node = length (lru_nodes s);
          s1 = s\<lparr>lru_nodes := lru_nodes s @ [MyLruNode key value]\<rparr>
      in bind_err (lru_insertNode node s1) (\<lambda>s2.
           let s3 = s2\<lparr>lru_nodeMap := AList.update key node (lru_nodeMap s2)\<rparr>
           in if int (length (lru_nodeMap s3)) > to_size_t (lru_capacity s3)
              then lru_evictLeastRecent s3 else Inr s3))"

text \<open>\<^verbatim>\<open>put\<close>, lines 68-80.\<close>

definition lru_put :: "'k \<Rightarrow> 'v \<Rightarrow> ('k, 'v) MyLruCache \<Rightarrow> error + ('k, 'v) MyLruCache" where
  "lru_put key value s =
     (if lru_capacity s < 0 then Inr s
      else case map_of (lru_nodeMap s) key of
             Some node \<Rightarrow> lru_updateExistNode node value s
           | None \<Rightarrow> lru_addNode key value s)"

text \<open>
  \<^verbatim>\<open>bool get(Key key, Value& value)\<close>, lines 88-97. The result is the returned flag, the
  contents of the reference parameter afterwards, and the cache.
\<close>

definition lru_get_ref :: "'k \<Rightarrow> 'v \<Rightarrow> ('k, 'v) MyLruCache \<Rightarrow> error + (bool \<times> 'v \<times> ('k, 'v) MyLruCache)" where
  "lru_get_ref key value s =
     (case map_of (lru_nodeMap s) key of
        Some node \<Rightarrow>
          bind_err (lru_moveToMostRecent node s) (\<lambda>s1. Inr (True, lru_value (lru_nodes s1 ! node), s1))
      | None \<Rightarrow> Inr (False, value, s))"

text \<open>\<^verbatim>\<open>Value get(Key key)\<close>, lines 82-86; \<open>dv\<close> is \<^verbatim>\<open>Value{}\<close>.\<close>

definition lru_get :: "'v \<Rightarrow> 'k \<Rightarrow> ('k, 'v) MyLruCache \<Rightarrow> error + ('v \<times> ('k, 'v) MyLruCache)" where
  "lru_get dv key s = bind_err (lru_get_ref key dv s) (\<lambda>(found, value, s1). Inr (value, s1))"


subsection \<open>MyKLruCache: the K-promotion wrapper\<close>

text \<open>
  \<^verbatim>\<open>MyKLruCache\<close> derives from \<^verbatim>\<open>MyLruCache<Key, Value>\<close>; the base-class sub-object
  is the field \<open>klru_base\<close>. Line 164 compares a \<^verbatim>\<open>Value\<close> with \<^verbatim>\<open>""\<close>, so
  \<^verbatim>\<open>Value\<close> is a string; the history cache stores \<^verbatim>\<open>size_t\<close> counts.
\<close>

record 'k MyKLruCache =
  klru_base :: "('k, string) MyLruCache"
  klru_k :: int
  klru_historyList :: "('k, nat) MyLruCache"

text \<open>The constructor, lines 158-161; \<open>dk\<close> is \<^verbatim>\<open>Key()\<close>.\<close>

definition MyKLruCache :: "'k \<Rightarrow> int \<Rightarrow> int \<Rightarrow> int \<Rightarrow> 'k MyKLruCache" where
  "MyKLruCache dk capactity historyCapactiy k =
     \<lparr>klru_base = MyLruCache dk [] capactity, klru_k = k,
      klru_historyList = MyLruCache dk 0 historyCapactiy\<rparr>"

text \<open>
  Modelled from the spec: \<^verbatim>\<open>historyList_->removeNode(key)\<close> on lines 170 and 179 calls a
  member that takes a key, and \<^verbatim>\<open>MyLruCache\<close> declares none (its private
  \<^verbatim>\<open>removeNode\<close> takes a node pointer). Section 4.3 of the specification says
  "remove the key from history": the key's node is unlinked from the list and the key is
  erased from the index map; an absent key changes nothing.
\<close>

definition lru_removeNode_key :: "'k \<Rightarrow> ('k, 'v) MyLruCache \<Rightarrow> error + ('k, 'v) MyLruCache" where
  "lru_removeNode_key key s =
     (case map_of (lru_nodeMap s) key of
        None \<Rightarrow> Inr s
      | Some node \<Rightarrow>
          bind_err (lru_removeNode node s) (\<lambda>s1.
            Inr (s1\<lparr>lru_nodeMap := AList.delete key (lru_nodeMap s1)\<rparr>)))"

text \<open>
  \<^verbatim>\<open>MyKLruCache::put\<close>, lines 163-173. \<^verbatim>\<open>historyCount\<close> is an \<^verbatim>\<open>int\<close> read from and
  written back to a \<^verbatim>\<open>size_t\<close>.
\<close>

definition klru_put :: "'k \<Rightarrow> string \<Rightarrow> 'k MyKLruCache \<Rightarrow> error + 'k MyKLruCache" where
  "klru_put key value s =
     bind_err (lru_get [] key (klru_base s)) (\<lambda>(v, b1).
     bind_err (if v \<noteq> [] then lru_put key value b1 else Inr b1) (\<lambda>b2.
     bind_err (lru_get 0 key (klru_historyList s)) (\<lambda>(c, h1).
       let historyCount = int c + 1 in
       bind_err (lru_put key (nat historyCount) h1) (\<lambda>h2.
         if historyCount \<ge> klru_k s
         then bind_err (lru_removeNode_key key h2) (\<lambda>h3.
              bind_err (lru_put key value b2) (\<lambda>b3.
                Inr (s\<lparr>klru_base := b3, klru_historyList := h3\<rparr>)))
         else Inr (s\<lparr>klru_base := b2, klru_historyList := h2\<rparr>)))))"

text \<open>
  \<^verbatim>\<open>MyKLruCache::get\<close>, lines 175-188. Line 180 passes a \<^verbatim>\<open>value\<close> that the function
  never declares; it is the parameter \<open>value\<close> here.
\<close>

definition klru_get :: "string \<Rightarrow> 'k \<Rightarrow> 'k MyKLruCache \<Rightarrow> error + (string \<times> 'k MyKLruCache)" where
  "klru_get value key s =
     bind_err (lru_get 0 key (klru_historyList s)) (\<lambda>(c, h1).
       let historyCount = int c in
       bind_err
         (if historyCount \<ge> klru_k s
          then bind_err (lru_removeNode_key key h1) (\<lambda>h2.
               bind_err (lru_put key value (klru_base s)) (\<lambda>b1. Inr (b1, h2)))
          else bind_err (lru_put key (nat (historyCount + 1)) h1) (\<lambda>h2. Inr (klru_base s, h2)))
         (\<lambda>(b1, h2).
            bind_err (lru_get [] key b1) (\<lambda>(v, b2).
              Inr (v, s\<lparr>klru_base := b2, klru_historyList := h2\<rparr>))))"

subsection \<open>MyHashLru: the sharded cache\<close>

record 'k MyHashLru =
  hash_capacity :: nat
  hash_sliceNum :: int
  hash_lruSliceCaches :: "'k MyKLruCache list"

text \<open>
  The constructor, lines 200-205. \<open>hw\<close> is what \<^verbatim>\<open>std::thread::hardware_concurrency()\<close>
  returns (it may be 0), narrowed to the \<^verbatim>\<open>int\<close> field; \<^verbatim>\<open>sliceNum\<close> on line 200 is
  read as the parameter \<^verbatim>\<open>slice\<close>. Line 203 constructs a shard from one argument where
  \<^verbatim>\<open>MyKLruCache\<close> takes three: the history capacity and the threshold are the parameters
  \<open>historyCapactiy\<close> and \<open>k\<close>. \<^verbatim>\<open>std::ceil\<close> of the quotient is the integer ceiling,
  which is what the \<^verbatim>\<open>double\<close> arithmetic yields for capacities below \<open>2^53\<close>. With no
  slice the quotient is not finite, and with a negative \<^verbatim>\<open>sliceNum_\<close> it may be negative:
  the conversion of either to \<^verbatim>\<open>size_t\<close> is undefined. The \<^verbatim>\<open>size_t\<close> size is narrowed
  to the \<^verbatim>\<open>int\<close> capacity of the shard.
\<close>

definition MyHashLru :: "'k \<Rightarrow> nat \<Rightarrow> int \<Rightarrow> int \<Rightarrow> nat \<Rightarrow> int \<Rightarrow> error + 'k MyHashLru" where
  "MyHashLru dk hw historyCapactiy k capacity slice =
     (let sliceNum = (if slice > 0 then slice else to_int32 (int hw))
      in if sliceNum = 0 then Inl DivByZero
         else let size = - ((- int capacity) div sliceNum)
              in if size < 0 then Inl OutOfRange
                 else Inr \<lparr>hash_capacity = capacity, hash_sliceNum = sliceNum,
                           hash_lruSliceCaches =
                             replicate (nat sliceNum) (MyKLruCache dk (to_int32 size) historyCapactiy k)\<rparr>)"

text \<open>
  \<^verbatim>\<open>Hash(key) % sliceNum_\<close>, lines 209 and 216: \<open>Hash\<close> is \<^verbatim>\<open>std::hash<Key>\<close>, a pure
  function into \<^verbatim>\<open>size_t\<close>; the \<^verbatim>\<open>int\<close> divisor is converted to \<^verbatim>\<open>size_t\<close>.
\<close>

definition hash_sliceIndex :: "('k \<Rightarrow> nat) \<Rightarrow> 'k \<Rightarrow> 'k MyHashLru \<Rightarrow> error + nat" where
  "hash_sliceIndex Hash key s =
     (if to_size_t (hash_sliceNum s) = 0 then Inl DivByZero
      else Inr (nat (to_size_t (int (Hash key)) mod to_size_t (hash_sliceNum s))))"

text \<open>\<^verbatim>\<open>MyHashLru::put\<close>, lines 206-211.\<close>

definition hash_put :: "('k \<Rightarrow> nat) \<Rightarrow> 'k \<Rightarrow> string \<Rightarrow> 'k MyHashLru \<Rightarrow> error + 'k MyHashLru" where
  "hash_put Hash key value s =
     bind_err (hash_sliceIndex Hash key s) (\<lambda>sliceIndex.
       if sliceIndex \<ge> length (hash_lruSliceCaches s) then Inl OutOfRange
       else bind_err (klru_put key value (hash_lruSliceCaches s ! sliceIndex)) (\<lambda>c.
              Inr (s\<lparr>hash_lruSliceCaches := (hash_lruSliceCaches s)[sliceIndex := c]\<rparr>)))"

text \<open>
  \<^verbatim>\<open>bool MyHashLru::get(Key, Value&)\<close>, lines 213-218. \<^verbatim>\<open>MyKLruCache\<close> declares the
  one-argument \<^verbatim>\<open>get\<close> alone, and that declaration hides the two-argument \<^verbatim>\<open>get\<close> of
  \<^verbatim>\<open>MyLruCache\<close>, the only function of that signature a shard has. The call of line
  217 is taken to reach it: the lookup goes to the shard's base cache and passes by the
  history.
\<close>

definition hash_get_ref :: "('k \<Rightarrow> nat) \<Rightarrow> 'k \<Rightarrow> string \<Rightarrow> 'k MyHashLru \<Rightarrow> error + (bool \<times> string \<times> 'k MyHashLru)" where
  "hash_get_ref Hash key value s =
     bind_err (hash_sliceIndex Hash key s) (\<lambda>sliceIndex.
       if sliceIndex \<ge> length (hash_lruSliceCaches s) then Inl OutOfRange
       else let c = hash_lruSliceCaches s ! sliceIndex in
            bind_err (lru_get_ref key value (klru_base c)) (\<lambda>(found, v, b).
              Inr (found, v, s\<lparr>hash_lruSliceCaches := (hash_lruSliceCaches s)[sliceIndex := c\<lparr>klru_base := b\<rparr>]\<rparr>)))"

text \<open>
  \<^verbatim>\<open>Value MyHashLru::get(Key)\<close>, lines 220-226. Line 223 overwrites the local
  \<^verbatim>\<open>std::string\<close> with zero bytes, which C++ does not define for a class type; with
  the usual layout of a string it leaves length 0 and a null data pointer. A miss
  returns it, read as the empty string; on a hit line 93 assigns the stored value to it,
  a store through the null pointer.
\<close>

definition hash_get :: "('k \<Rightarrow> nat) \<Rightarrow> 'k \<Rightarrow> 'k MyHashLru \<Rightarrow> error + (string \<times> 'k MyHashLru)" where
  "hash_get Hash key s =
     bind_err (hash_get_ref Hash key [] s) (\<lambda>(found, v, s1).
       if found then Inl NullDeref else Inr (v, s1))"


section \<open>MyLfuCache.h: the LFU engine\<close>

record ('k, 'v) Node =
  node_freq :: int
  node_key :: 'k
  node_value :: 'v
  node_prev :: "nat option"
  node_next :: "nat option"

text \<open>
  \<^verbatim>\<open>Node()\<close> and \<^verbatim>\<open>Node(Key, Value)\<close>, lines 27-28. \<^verbatim>\<open>Node()\<close> leaves \<^verbatim>\<open>key\<close> and
  \<^verbatim>\<open>value\<close> default-initialised; \<open>dk\<close> and \<open>dv\<close> stand for what they hold.
\<close>

definition Node :: "'k \<Rightarrow> 'v \<Rightarrow> ('k, 'v) Node" where
  "Node key value =
     \<lparr>node_freq = 1, node_key = key, node_value = value, node_prev = None, node_next = None\<rparr>"

definition node_set_prev :: "nat \<Rightarrow> nat option \<Rightarrow> ('k, 'v) Node list \<Rightarrow> ('k, 'v) Node list" where
  "node_set_prev a p h = h[a := (h ! a)\<lparr>node_prev := p\<rparr>]"

definition node_set_next :: "nat \<Rightarrow> nat option \<Rightarrow> ('k, 'v) Node list \<Rightarrow> ('k, 'v) Node list" where
  "node_set_next a n h = h[a := (h ! a)\<lparr>node_next := n\<rparr>]"

definition node_set_freq :: "nat \<Rightarrow> int \<Rightarrow> ('k, 'v) Node list \<Rightarrow> ('k, 'v) Node list" where
  "node_set_freq a f h = h[a := (h ! a)\<lparr>node_freq := f\<rparr>]"

definition node_set_value :: "nat \<Rightarrow> 'v \<Rightarrow> ('k, 'v) Node list \<Rightarrow> ('k, 'v) Node list" where
  "node_set_value a v h = h[a := (h ! a)\<lparr>node_value := v\<rparr>]"

record Freqlist =
  fl_freq :: int
  fl_head :: "nat option"
  fl_tail :: "nat option"

text \<open>\<^verbatim>\<open>Freqlist(int n)\<close>, lines 37-42: two sentinels are allocated and linked.\<close>

definition Freqlist :: "'k \<Rightarrow> 'v \<Rightarrow> int \<Rightarrow> ('k, 'v) Node list \<Rightarrow> Freqlist \<times> ('k, 'v) Node list" where
  "Freqlist dk dv n h =
     (let head = length h; tail = length h + 1
      in (\<lparr>fl_freq = n, fl_head = Some head, fl_tail = Some tail\<rparr>,
          h @ [(Node dk dv)\<lparr>node_next := Some tail\<rparr>, (Node dk dv)\<lparr>node_prev := Some head\<rparr>]))"

text \<open>\<^verbatim>\<open>Freqlist::addNode\<close>, lines 44-51.\<close>

definition Freqlist_addNode :: "nat option \<Rightarrow> Freqlist \<Rightarrow> ('k, 'v) Node list \<Rightarrow> error + ('k, 'v) Node list" where
  "Freqlist_addNode node fl h =
     (case (node, fl_head fl, fl_tail fl) of
        (Some n, Some head, Some tail) \<Rightarrow>
          let h1 = node_set_prev n (node_prev (h ! tail)) h;
              h2 = node_set_next n (Some tail) h1
          in (case node_prev (h2 ! tail) of
                None \<Rightarrow> Inl NullDeref
              | Some p \<Rightarrow> Inr (node_set_prev tail (Some n) (node_set_next p (Some n) h2)))
      | _ \<Rightarrow> Inr h)"

text \<open>\<^verbatim>\<open>Freqlist::remove\<close>, lines 53-61.\<close>

definition Freqlist_remove :: "nat option \<Rightarrow> Freqlist \<Rightarrow> ('k, 'v) Node list \<Rightarrow> error + ('k, 'v) Node list" where
  "Freqlist_remove node fl h =
     (case (node, fl_head fl, fl_tail fl) of
        (Some n, Some head, Some tail) \<Rightarrow>
          (case (node_prev (h ! n), node_next (h ! n)) of
             (Some p, Some nx) \<Rightarrow>
               let h1 = node_set_next p (node_next (h ! n)) h
               in (case node_next (h1 ! n) of
                     None \<Rightarrow> Inl NullDeref
                   | Some nx1 \<Rightarrow>
                       let h2 = node_set_prev nx1 (node_prev (h1 ! n)) h1
                       in Inr (node_set_next n None (node_set_prev n None h2)))
           | _ \<Rightarrow> Inr h)
      | _ \<Rightarrow> Inr h)"

text \<open>\<^verbatim>\<open>Freqlist::isEmpty\<close> and \<^verbatim>\<open>Freqlist::getFirstNode\<close>, lines 63-67.\<close>

definition Freqlist_isEmpty :: "Freqlist \<Rightarrow> ('k, 'v) Node list \<Rightarrow> error + bool" where
  "Freqlist_isEmpty fl h =
     (case fl_head fl of None \<Rightarrow> Inl NullDeref | Some head \<Rightarrow> Inr (node_next (h ! head) = fl_tail fl))"

definition Freqlist_getFirstNode :: "Freqlist \<Rightarrow> ('k, 'v) Node list \<Rightarrow> error + nat option" where
  "Freqlist_getFirstNode fl h =
     (case fl_head fl of None \<Rightarrow> Inl NullDeref | Some head \<Rightarrow> Inr (node_next (h ! head)))"

text \<open>
  The cache, lines 80-88. \<^verbatim>\<open>freqToFreqList_\<close> maps a frequency to a raw pointer to a
  \<^verbatim>\<open>Freqlist\<close> whose three fields are never assigned after construction, so the list
  holds the \<^verbatim>\<open>Freqlist\<close> itself. \<open>lfu_nodes\<close> is the store; \<open>lfu_defaultKey\<close> and
  \<open>lfu_defaultValue\<close> are the contents of a default-initialised key and value, which
  the sentinels of every bucket carry.
\<close>

record ('k, 'v) MyLfuCache =
  lfu_capacity :: int
  lfu_minFreq :: int
  lfu_maxAverageNum :: int
  lfu_curAverageNum :: int
  lfu_curTotalNum :: int
  lfu_nodeMap :: "('k \<times> nat) list"
  lfu_freqToFreqList :: "(int \<times> Freqlist) list"
  lfu_nodes :: "('k, 'v) Node list"
  lfu_defaultKey :: 'k
  lfu_defaultValue :: 'v

definition INT8_MAX :: int where
  "INT8_MAX = 127"

text \<open>
  The constructor, line 91. It initialises neither \<^verbatim>\<open>curTotalNum_\<close> nor the two maps'
  contents; the maps start empty, and the indeterminate initial value of \<^verbatim>\<open>curTotalNum_\<close>
  is the parameter \<open>curTotalNum\<close>.
\<close>

definition MyLfuCache :: "'k \<Rightarrow> 'v \<Rightarrow> int \<Rightarrow> int \<Rightarrow> int \<Rightarrow> ('k, 'v) MyLfuCache" where
  "MyLfuCache dk dv curTotalNum capacity maxAverageNum =
     \<lparr>lfu_capacity = capacity, lfu_minFreq = INT8_MAX, lfu_maxAverageNum = maxAverageNum,
      lfu_curAverageNum = 0, lfu_curTotalNum = curTotalNum, lfu_nodeMap = [],
      lfu_freqToFreqList = [], lfu_nodes = [], lfu_defaultKey = dk, lfu_defaultValue = dv\<rparr>"

text \<open>
  \<^verbatim>\<open>freqToFreqList_[f]->\<close>: \<^verbatim>\<open>operator[]\<close> on an absent frequency inserts a null pointer,
  and every use in the source calls a member through the pointer at once, which is
  undefined on a null pointer.
\<close>

definition lfu_freqlist_at :: "int \<Rightarrow> ('k, 'v) MyLfuCache \<Rightarrow> error + Freqlist" where
  "lfu_freqlist_at f s =
     (case map_of (lfu_freqToFreqList s) f of None \<Rightarrow> Inl NullDeref | Some fl \<Rightarrow> Inr fl)"

text \<open>\<^verbatim>\<open>removeFromFreqList\<close>, lines 155-162.\<close>

definition lfu_removeFromFreqList :: "nat option \<Rightarrow> ('k, 'v) MyLfuCache \<Rightarrow> error + ('k, 'v) MyLfuCache" where
  "lfu_removeFromFreqList node s =
     (case node of
        None \<Rightarrow> Inr s
      | Some n \<Rightarrow>
          let freq = node_freq (lfu_nodes s ! n)
          in bind_err (lfu_freqlist_at freq s) (\<lambda>fl.
             bind_err (Freqlist_remove node fl (lfu_nodes s)) (\<lambda>h. Inr (s\<lparr>lfu_nodes := h\<rparr>))))"

text \<open>\<^verbatim>\<open>addToFreqList\<close>, lines 163-177.\<close>

definition lfu_addToFreqList :: "nat option \<Rightarrow> ('k, 'v) MyLfuCache \<Rightarrow> error + ('k, 'v) MyLfuCache" where
  "lfu_addToFreqList node s =
     (case node of
        None \<Rightarrow> Inr s
      | Some n \<Rightarrow>
          let freq = node_freq (lfu_nodes s ! n);
              s1 = (if map_of (lfu_freqToFreqList s) freq = None
                    then (let (fl, h) = Freqlist (lfu_defaultKey s) (lfu_defaultValue s) freq (lfu_nodes s)
                          in s\<lparr>lfu_freqToFreqList := AList.update freq fl (lfu_freqToFreqList s),
                               lfu_nodes := h\<rparr>)
                    else s)
          in bind_err (lfu_freqlist_at freq s1) (\<lambda>fl.
             bind_err (Freqlist_addNode node fl (lfu_nodes s1)) (\<lambda>h. Inr (s1\<lparr>lfu_nodes := h\<rparr>))))"

text \<open>
  The average of lines 184 and 196: \<^verbatim>\<open>curTotalNum_ / nodeMap_.size()\<close> divides an
  \<^verbatim>\<open>int\<close> by a \<^verbatim>\<open>size_t\<close>, so the dividend is converted to \<^verbatim>\<open>size_t\<close> and the
  quotient back to \<^verbatim>\<open>int\<close>.
\<close>

definition lfu_average :: "('k, 'v) MyLfuCache \<Rightarrow> int" where
  "lfu_average s =
     (if lfu_nodeMap s = [] then 0
      else to_int32 (to_size_t (lfu_curTotalNum s) div int (length (lfu_nodeMap s))))"

text \<open>\<^verbatim>\<open>decreaseFreqNum\<close>, lines 191-197.\<close>

definition lfu_decreaseFreqNum :: "int \<Rightarrow> ('k, 'v) MyLfuCache \<Rightarrow> ('k, 'v) MyLfuCache" where
  "lfu_decreaseFreqNum num s =
     (let s1 = s\<lparr>lfu_curTotalNum := lfu_curTotalNum s - num\<rparr>
      in s1\<lparr>lfu_curAverageNum := lfu_average s1\<rparr>)"

text \<open>\<^verbatim>\<open>updateMinFreq\<close>, lines 225-236: the loop over the buckets, then the fallback.\<close>

fun lfu_updateMinFreq_loop :: "(int \<times> Freqlist) list \<Rightarrow> ('k, 'v) Node list \<Rightarrow> int \<Rightarrow> error + int" where
  "lfu_updateMinFreq_loop [] h minFreq = Inr minFreq"
| "lfu_updateMinFreq_loop (pair # rest) h minFreq =
     bind_err (Freqlist_isEmpty (snd pair) h) (\<lambda>empty.
       lfu_updateMinFreq_loop rest h (if \<not> empty then min minFreq (fst pair) else minFreq))"

definition lfu_updateMinFreq :: "('k, 'v) MyLfuCache \<Rightarrow> error + ('k, 'v) MyLfuCache" where
  "lfu_updateMinFreq s =
     bind_err (lfu_updateMinFreq_loop (lfu_freqToFreqList s) (lfu_nodes s) INT8_MAX) (\<lambda>minFreq.
       Inr (s\<lparr>lfu_minFreq := (if minFreq = INT8_MAX then 1 else minFreq)\<rparr>))"

text \<open>The quotient of two \<^verbatim>\<open>int\<close>s in C++ truncates towards zero.\<close>

definition cpp_div :: "int \<Rightarrow> int \<Rightarrow> int" where
  "cpp_div a b = sgn a * sgn b * (\<bar>a\<bar> div \<bar>b\<bar>)"

text \<open>
  \<^verbatim>\<open>handleOverMaxAverageNum\<close>, lines 198-224: the loop over \<^verbatim>\<open>nodeMap_\<close>, whose node
  pointers are never null, then \<^verbatim>\<open>updateMinFreq\<close>. The loop function takes the entries
  to visit as a list; \<open>lfu_handleOverMaxAverageNum\<close> hands it the index map in the order
  of insertion, and the last part of this section the order as a parameter.
\<close>

fun lfu_handleOverMaxAverageNum_loop :: "('k \<times> nat) list \<Rightarrow> ('k, 'v) MyLfuCache \<Rightarrow> error + ('k, 'v) MyLfuCache" where
  "lfu_handleOverMaxAverageNum_loop [] s = Inr s"
| "lfu_handleOverMaxAverageNum_loop (it # rest) s =
     (let node = snd it
      in bind_err (lfu_removeFromFreqList (Some node) s) (\<lambda>s1.
           let f = node_freq (lfu_nodes s1 ! node) - cpp_div (lfu_maxAverageNum s1) 2;
               s2 = s1\<lparr>lfu_nodes := node_set_freq node (if f < 1 then 1 else f) (lfu_nodes s1)\<rparr>
           in bind_err (lfu_addToFreqList (Some node) s2) (lfu_handleOverMaxAverageNum_loop rest)))"

definition lfu_handleOverMaxAverageNum :: "('k, 'v) MyLfuCache \<Rightarrow> error + ('k, 'v) MyLfuCache" where
  "lfu_handleOverMaxAverageNum s =
     (if lfu_nodeMap s = [] then Inr s
      else bind_err (lfu_handleOverMaxAverageNum_loop (lfu_nodeMap s) s) lfu_updateMinFreq)"

text \<open>\<^verbatim>\<open>addFreqNum\<close>, lines 179-190.\<close>

definition lfu_addFreqNum :: "('k, 'v) MyLfuCache \<Rightarrow> error + ('k, 'v) MyLfuCache" where
  "lfu_addFreqNum s =
     (let s1 = s\<lparr>lfu_curTotalNum := lfu_curTotalNum s + 1\<rparr>;
          s2 = s1\<lparr>lfu_curAverageNum := lfu_average s1\<rparr>
      in if lfu_curAverageNum s2 > lfu_maxAverageNum s2 then lfu_handleOverMaxAverageNum s2
         else Inr s2)"

text \<open>\<^verbatim>\<open>kickOut\<close>, lines 148-153.\<close>

definition lfu_kickOut :: "('k, 'v) MyLfuCache \<Rightarrow> error + ('k, 'v) MyLfuCache" where
  "lfu_kickOut s =
     bind_err (lfu_freqlist_at (lfu_minFreq s) s) (\<lambda>fl.
     bind_err (Freqlist_getFirstNode fl (lfu_nodes s)) (\<lambda>node.
       case node of
         None \<Rightarrow> Inl NullDeref
       | Some n \<Rightarrow>
           let s1 = s\<lparr>lfu_nodeMap := AList.delete (node_key (lfu_nodes s ! n)) (lfu_nodeMap s)\<rparr>
           in bind_err (lfu_removeFromFreqList node s1) (\<lambda>s2.
                Inr (lfu_decreaseFreqNum (node_freq (lfu_nodes s2 ! n)) s2))))"

text \<open>
  \<^verbatim>\<open>putInternal\<close>, lines 131-137. The comparison with the capacity is made in
  \<^verbatim>\<open>size_t\<close>.
\<close>

definition lfu_putInternal :: "'k \<Rightarrow> 'v \<Rightarrow> ('k, 'v) MyLfuCache \<Rightarrow> error + ('k, 'v) MyLfuCache" where
  "lfu_putInternal key value s =
     (let node = length (lfu_nodes s);
          s1 = s\<lparr>lfu_nodes := lfu_nodes s @ [Node key value]\<rparr>
      in bind_err (if int (length (lfu_nodeMap s1)) \<ge> to_size_t (lfu_capacity s1)
                   then lfu_kickOut s1 else Inr s1) (\<lambda>s2.
           lfu_addToFreqList (Some node)
             (s2\<lparr>lfu_nodeMap := AList.update key node (lfu_nodeMap s2)\<rparr>)))"

text \<open>\<^verbatim>\<open>getInternal\<close>, lines 138-146. The second conjunct of line 142 is evaluated only
  when the first holds.\<close>

definition lfu_getInternal :: "nat \<Rightarrow> ('k, 'v) MyLfuCache \<Rightarrow> error + ('k, 'v) MyLfuCache" where
  "lfu_getInternal node s =
     bind_err (lfu_removeFromFreqList (Some node) s) (\<lambda>s1.
       let s2 = s1\<lparr>lfu_nodes := node_set_freq node (node_freq (lfu_nodes s1 ! node) + 1) (lfu_nodes s1)\<rparr>
       in bind_err (lfu_addToFreqList (Some node) s2) (\<lambda>s3.
          bind_err (if node_freq (lfu_nodes s3 ! node) = lfu_minFreq s3 + 1
                    then bind_err (lfu_freqlist_at (lfu_minFreq s3) s3) (\<lambda>fl.
                         bind_err (Freqlist_isEmpty fl (lfu_nodes s3)) (\<lambda>empty.
                           Inr (if empty then s3\<lparr>lfu_minFreq := lfu_minFreq s3 + 1\<rparr> else s3)))
                    else Inr s3)
            lfu_addFreqNum))"

text \<open>\<^verbatim>\<open>put\<close>, lines 94-104.\<close>

definition lfu_put :: "'k \<Rightarrow> 'v \<Rightarrow> ('k, 'v) MyLfuCache \<Rightarrow> error + ('k, 'v) MyLfuCache" where
  "lfu_put key value s =
     (if lfu_capacity s \<le> 0 then Inr s
      else case map_of (lfu_nodeMap s) key of
             Some node \<Rightarrow>
               lfu_getInternal node (s\<lparr>lfu_nodes := node_set_value node value (lfu_nodes s)\<rparr>)
           | None \<Rightarrow> lfu_putInternal key value s)"

text \<open>\<^verbatim>\<open>bool get(Key key, Value& value)\<close>, lines 112-121.\<close>

definition lfu_get_ref :: "'k \<Rightarrow> 'v \<Rightarrow> ('k, 'v) MyLfuCache \<Rightarrow> error + (bool \<times> 'v \<times> ('k, 'v) MyLfuCache)" where
  "lfu_get_ref key value s =
     (case map_of (lfu_nodeMap s) key of
        Some node \<Rightarrow>
          bind_err (lfu_getInternal node s) (\<lambda>s1. Inr (True, node_value (lfu_nodes s ! node), s1))
      | None \<Rightarrow> Inr (False, value, s))"

text \<open>\<^verbatim>\<open>Value get(Key key)\<close>, lines 106-110: the local starts default-initialised.\<close>

definition lfu_get :: "'k \<Rightarrow> ('k, 'v) MyLfuCache \<Rightarrow> error + ('v \<times> ('k, 'v) MyLfuCache)" where
  "lfu_get key s = bind_err (lfu_get_ref key (lfu_defaultValue s) s) (\<lambda>(found, value, s1). Inr (value, s1))"

text \<open>\<^verbatim>\<open>purge\<close>, lines 124-128.\<close>

definition lfu_purge :: "('k, 'v) MyLfuCache \<Rightarrow> ('k, 'v) MyLfuCache" where
  "lfu_purge s = s\<lparr>lfu_nodeMap := [], lfu_freqToFreqList := []\<rparr>"


subsection \<open>The order of the walk over the index map\<close>

text \<open>
  The loop of line 203 visits the entries of \<^verbatim>\<open>nodeMap_\<close> in the order of the
  container's iterators. C++ leaves that order to the implementation of
  \<^verbatim>\<open>std::unordered_map\<close>, and it decides in which order the entries are linked into
  their new buckets, hence which entry a later \<^verbatim>\<open>kickOut\<close> takes. The functions above
  visit the entries in the order in which the keys were inserted. The functions below
  are \<^verbatim>\<open>handleOverMaxAverageNum\<close>, \<^verbatim>\<open>addFreqNum\<close>, \<^verbatim>\<open>getInternal\<close>, \<^verbatim>\<open>put\<close> and the
  two-argument \<^verbatim>\<open>get\<close> once more, with the order as a parameter: \<open>walk\<close> is the list
  of the entries of \<^verbatim>\<open>nodeMap_\<close> as the iterators deliver them during the call.
\<close>

definition lfu_handleOverMaxAverageNum_in ::
    "('k \<times> nat) list \<Rightarrow> ('k, 'v) MyLfuCache \<Rightarrow> error + ('k, 'v) MyLfuCache" where
  "lfu_handleOverMaxAverageNum_in walk s =
     (if lfu_nodeMap s = [] then Inr s
      else bind_err (lfu_handleOverMaxAverageNum_loop walk s) lfu_updateMinFreq)"

definition lfu_addFreqNum_in ::
    "('k \<times> nat) list \<Rightarrow> ('k, 'v) MyLfuCache \<Rightarrow> error + ('k, 'v) MyLfuCache" where
  "lfu_addFreqNum_in walk s =
     (let s1 = s\<lparr>lfu_curTotalNum := lfu_curTotalNum s + 1\<rparr>;
          s2 = s1\<lparr>lfu_curAverageNum := lfu_average s1\<rparr>
      in if lfu_curAverageNum s2 > lfu_maxAverageNum s2 then lfu_handleOverMaxAverageNum_in walk s2
         else Inr s2)"

definition lfu_getInternal_in ::
    "('k \<times> nat) list \<Rightarrow> nat \<Rightarrow> ('k, 'v) MyLfuCache \<Rightarrow> error + ('k, 'v) MyLfuCache" where
  "lfu_getInternal_in walk node s =
     bind_err (lfu_removeFromFreqList (Some node) s) (\<lambda>s1.
       let s2 = s1\<lparr>lfu_nodes := node_set_freq node (node_freq (lfu_nodes s1 ! node) + 1) (lfu_nodes s1)\<rparr>
       in bind_err (lfu_addToFreqList (Some node) s2) (\<lambda>s3.
          bind_err (if node_freq (lfu_nodes s3 ! node) = lfu_minFreq s3 + 1
                    then bind_err (lfu_freqlist_at (lfu_minFreq s3) s3) (\<lambda>fl.
                         bind_err (Freqlist_isEmpty fl (lfu_nodes s3)) (\<lambda>empty.
                           Inr (if empty then s3\<lparr>lfu_minFreq := lfu_minFreq s3 + 1\<rparr> else s3)))
                    else Inr s3)
            (lfu_addFreqNum_in walk)))"

definition lfu_put_in ::
    "('k \<times> nat) list \<Rightarrow> 'k \<Rightarrow> 'v \<Rightarrow> ('k, 'v) MyLfuCache \<Rightarrow> error + ('k, 'v) MyLfuCache" where
  "lfu_put_in walk key value s =
     (if lfu_capacity s \<le> 0 then Inr s
      else case map_of (lfu_nodeMap s) key of
             Some node \<Rightarrow>
               lfu_getInternal_in walk node (s\<lparr>lfu_nodes := node_set_value node value (lfu_nodes s)\<rparr>)
           | None \<Rightarrow> lfu_putInternal key value s)"

definition lfu_get_ref_in ::
    "('k \<times> nat) list \<Rightarrow> 'k \<Rightarrow> 'v \<Rightarrow> ('k, 'v) MyLfuCache \<Rightarrow> error + (bool \<times> 'v \<times> ('k, 'v) MyLfuCache)" where
  "lfu_get_ref_in walk key value s =
     (case map_of (lfu_nodeMap s) key of
        Some node \<Rightarrow>
          bind_err (lfu_getInternal_in walk node s) (\<lambda>s1. Inr (True, node_value (lfu_nodes s ! node), s1))
      | None \<Rightarrow> Inr (False, value, s))"


section \<open>Sequences of public operations and what a caller observes\<close>

text \<open>
  A sequence of calls on one cache runs from left to right and stops at the first
  undefined behaviour.
\<close>

fun run_ops :: "('op \<Rightarrow> 's \<Rightarrow> error + 's) \<Rightarrow> 'op list \<Rightarrow> 's \<Rightarrow> error + 's" where
  "run_ops step [] s = Inr s"
| "run_ops step (x # xs) s = bind_err (step x s) (run_ops step xs)"

datatype ('k, 'v) lru_op = LruPut 'k 'v | LruGet 'k

fun lru_step :: "'v \<Rightarrow> ('k, 'v) lru_op \<Rightarrow> ('k, 'v) MyLruCache \<Rightarrow> error + ('k, 'v) MyLruCache" where
  "lru_step dv (LruPut key value) s = lru_put key value s"
| "lru_step dv (LruGet key) s = bind_err (lru_get_ref key dv s) (\<lambda>(found, value, s1). Inr s1)"

text \<open>The flag and the value that the two-argument \<^verbatim>\<open>get\<close> hands back after a run.\<close>

definition lru_lookup_after :: "'k \<Rightarrow> 'v \<Rightarrow> error + ('k, 'v) MyLruCache \<Rightarrow> error + (bool \<times> 'v)" where
  "lru_lookup_after key dv r =
     bind_err r (\<lambda>s. bind_err (lru_get_ref key dv s) (\<lambda>(found, value, s1). Inr (found, value)))"

text \<open>
  The keys of the index map, and the keys of the nodes met on the walk from
  \<^verbatim>\<open>dummyHead_->next_\<close> along \<^verbatim>\<open>next_\<close> up to \<^verbatim>\<open>dummyTail_\<close>. The walk has as many steps as
  the store has nodes, plus one; \<open>None\<close> is a walk that meets a null pointer or does
  not reach the tail sentinel.
\<close>

definition lru_index_keys :: "error + ('k, 'v) MyLruCache \<Rightarrow> error + 'k list" where
  "lru_index_keys r = bind_err r (\<lambda>s. Inr (map fst (lru_nodeMap s)))"

fun lru_walk :: "nat \<Rightarrow> nat option \<Rightarrow> ('k, 'v) MyLruCache \<Rightarrow> 'k list option" where
  "lru_walk 0 p s = None"
| "lru_walk (Suc n) None s = None"
| "lru_walk (Suc n) (Some a) s =
     (if a = lru_dummyTail s then Some []
      else map_option (Cons (lru_key (lru_nodes s ! a))) (lru_walk n (lru_next (lru_nodes s ! a)) s))"

definition lru_reachable_keys :: "error + ('k, 'v) MyLruCache \<Rightarrow> error + 'k list option" where
  "lru_reachable_keys r =
     bind_err r (\<lambda>s.
       Inr (lru_walk (Suc (length (lru_nodes s))) (lru_next (lru_nodes s ! lru_dummyHead s)) s))"

text \<open>
  The key-to-value view of an LRU cache: what the index map and the nodes it points
  to hold for a key.
\<close>

definition lru_view :: "('k, 'v) MyLruCache \<Rightarrow> 'k \<Rightarrow> 'v option" where
  "lru_view s key = map_option (\<lambda>node. lru_value (lru_nodes s ! node)) (map_of (lru_nodeMap s) key)"

definition lru_wf :: "('k, 'v) MyLruCache \<Rightarrow> bool" where
  "lru_wf s \<longleftrightarrow>
     (\<forall>key node. map_of (lru_nodeMap s) key = Some node \<longrightarrow>
        node < length (lru_nodes s) \<and> lru_key (lru_nodes s ! node) = key)"

text \<open>
  Two LRU states with the same index map and capacity whose nodes agree on keys and
  values (only links differ).
\<close>

definition lru_same :: "('k, 'v) MyLruCache \<Rightarrow> ('k, 'v) MyLruCache \<Rightarrow> bool" where
  "lru_same s s' \<longleftrightarrow>
     lru_nodeMap s' = lru_nodeMap s \<and> lru_capacity s' = lru_capacity s \<and>
     lru_dummyHead s' = lru_dummyHead s \<and> lru_dummyTail s' = lru_dummyTail s \<and>
     map lru_key (lru_nodes s') = map lru_key (lru_nodes s) \<and>
     map lru_value (lru_nodes s') = map lru_value (lru_nodes s)"

text \<open>Calls on the K-promotion wrapper; a \<open>KGet\<close> carries the undeclared \<^verbatim>\<open>value\<close>.\<close>

datatype 'k klru_op = KPut 'k string | KGet 'k string

fun klru_step :: "'k klru_op \<Rightarrow> 'k MyKLruCache \<Rightarrow> error + 'k MyKLruCache" where
  "klru_step (KPut key value) s = klru_put key value s"
| "klru_step (KGet key value) s = bind_err (klru_get value key s) (\<lambda>(v, s1). Inr s1)"

fun klru_op_key :: "'k klru_op \<Rightarrow> 'k" where
  "klru_op_key (KPut key value) = key"
| "klru_op_key (KGet key value) = key"

definition klru_accesses :: "'k \<Rightarrow> 'k klru_op list \<Rightarrow> nat" where
  "klru_accesses key ops = length (filter (\<lambda>x. klru_op_key x = key) ops)"

text \<open>What \<^verbatim>\<open>historyList_->get(key)\<close> returns: the stored count, 0 for an absent key.\<close>

definition klru_historyCount :: "'k \<Rightarrow> 'k MyKLruCache \<Rightarrow> nat" where
  "klru_historyCount key s =
     (case lru_view (klru_historyList s) key of None \<Rightarrow> 0 | Some c \<Rightarrow> c)"

text \<open>
  The bookkeeping behind the promotion gate, for a function \<open>n\<close> that counts the
  accesses made to each key so far: a key that the main cache holds has been accessed at
  least \<^verbatim>\<open>k_\<close> times, and no count in the history exceeds the key's accesses.
\<close>

definition klru_inv :: "('k \<Rightarrow> nat) \<Rightarrow> 'k MyKLruCache \<Rightarrow> bool" where
  "klru_inv n s \<longleftrightarrow>
     lru_wf (klru_base s) \<and> lru_wf (klru_historyList s) \<and>
     (\<forall>key x. lru_view (klru_base s) key = Some x \<longrightarrow> klru_k s \<le> int (n key)) \<and>
     (\<forall>key c. lru_view (klru_historyList s) key = Some c \<longrightarrow> c \<le> n key)"

definition klru_value_after :: "string \<Rightarrow> 'k \<Rightarrow> error + 'k MyKLruCache \<Rightarrow> error + string" where
  "klru_value_after value key r = bind_err r (\<lambda>s. bind_err (klru_get value key s) (\<lambda>(v, s1). Inr v))"

text \<open>Calls on the sharded cache.\<close>

datatype 'k hash_op = HashPut 'k string | HashGet 'k

fun hash_step :: "('k \<Rightarrow> nat) \<Rightarrow> 'k hash_op \<Rightarrow> 'k MyHashLru \<Rightarrow> error + 'k MyHashLru" where
  "hash_step Hash (HashPut key value) s = hash_put Hash key value s"
| "hash_step Hash (HashGet key) s = bind_err (hash_get_ref Hash key [] s) (\<lambda>(found, v, s1). Inr s1)"

text \<open>Calls on the LFU engine.\<close>

datatype ('k, 'v) lfu_op = LfuPut 'k 'v | LfuGet 'k | LfuPurge

fun lfu_step :: "('k, 'v) lfu_op \<Rightarrow> ('k, 'v) MyLfuCache \<Rightarrow> error + ('k, 'v) MyLfuCache" where
  "lfu_step (LfuPut key value) s = lfu_put key value s"
| "lfu_step (LfuGet key) s =
     bind_err (lfu_get_ref key (lfu_defaultValue s) s) (\<lambda>(found, value, s1). Inr s1)"
| "lfu_step LfuPurge s = Inr (lfu_purge s)"

text \<open>
  The same calls with the order of the walk as a parameter, and the states that calls
  reach from a constructed engine when every call may walk \<^verbatim>\<open>nodeMap_\<close> in an order of
  its own: \<open>walk\<close> lists every entry of the index map once.
\<close>

fun lfu_step_in ::
    "('k \<times> nat) list \<Rightarrow> ('k, 'v) lfu_op \<Rightarrow> ('k, 'v) MyLfuCache \<Rightarrow> error + ('k, 'v) MyLfuCache" where
  "lfu_step_in walk (LfuPut key value) s = lfu_put_in walk key value s"
| "lfu_step_in walk (LfuGet key) s =
     bind_err (lfu_get_ref_in walk key (lfu_defaultValue s) s) (\<lambda>(found, value, s1). Inr s1)"
| "lfu_step_in walk LfuPurge s = Inr (lfu_purge s)"

inductive lfu_reachable :: "('k, 'v) MyLfuCache \<Rightarrow> bool" where
  lfu_reachable_init: "lfu_reachable (MyLfuCache dk dv curTotalNum capacity maxAverageNum)"
| lfu_reachable_step:
    "lfu_reachable s \<Longrightarrow> distinct walk \<Longrightarrow> set walk = set (lfu_nodeMap s) \<Longrightarrow>
     lfu_step_in walk x s = Inr s' \<Longrightarrow> lfu_reachable s'"

text \<open>
  The calls that run the rebalance. \<^verbatim>\<open>handleOverMaxAverageNum\<close> is called on line 188
  of \<^verbatim>\<open>addFreqNum\<close> and nowhere else, \<^verbatim>\<open>addFreqNum\<close> on line 145 of \<^verbatim>\<open>getInternal\<close>
  and nowhere else, and \<^verbatim>\<open>getInternal\<close> on lines 100 and 117, where \<^verbatim>\<open>put\<close> and
  \<^verbatim>\<open>get\<close> have found the key. Between the start of such a call and line 186 nothing
  writes \<^verbatim>\<open>curTotalNum_\<close>, \<^verbatim>\<open>nodeMap_\<close> or \<^verbatim>\<open>maxAverageNum_\<close>, so the test of line
  186 is read off the state in which the call starts: the average over the index map
  of \<^verbatim>\<open>curTotalNum_\<close> plus one exceeds \<^verbatim>\<open>maxAverageNum_\<close>.
\<close>

fun lfu_reaches_getInternal :: "('k, 'v) lfu_op \<Rightarrow> ('k, 'v) MyLfuCache \<Rightarrow> bool" where
  "lfu_reaches_getInternal (LfuPut key value) s =
     (0 < lfu_capacity s \<and> map_of (lfu_nodeMap s) key \<noteq> None)"
| "lfu_reaches_getInternal (LfuGet key) s = (map_of (lfu_nodeMap s) key \<noteq> None)"
| "lfu_reaches_getInternal LfuPurge s = False"

definition lfu_rebalances :: "('k, 'v) lfu_op \<Rightarrow> ('k, 'v) MyLfuCache \<Rightarrow> bool" where
  "lfu_rebalances x s \<longleftrightarrow>
     lfu_reaches_getInternal x s \<and>
     lfu_average (s\<lparr>lfu_curTotalNum := lfu_curTotalNum s + 1\<rparr>) > lfu_maxAverageNum s"

text \<open>
  What is read off an LFU cache after a run: the counters \<^verbatim>\<open>minFreq_\<close>,
  \<^verbatim>\<open>curTotalNum_\<close> and \<^verbatim>\<open>curAverageNum_\<close>; the index map as pairs of a key and the
  frequency stored in its node; the keys of the buckets.
\<close>

definition lfu_counters :: "error + ('k, 'v) MyLfuCache \<Rightarrow> error + (int \<times> int \<times> int)" where
  "lfu_counters r = bind_err r (\<lambda>s. Inr (lfu_minFreq s, lfu_curTotalNum s, lfu_curAverageNum s))"

definition lfu_entries :: "error + ('k, 'v) MyLfuCache \<Rightarrow> error + ('k \<times> int) list" where
  "lfu_entries r =
     bind_err r (\<lambda>s. Inr (map (\<lambda>it. (fst it, node_freq (lfu_nodes s ! snd it))) (lfu_nodeMap s)))"

text \<open>The keys of the nodes linked between the sentinels of one bucket, front first.\<close>

fun node_walk :: "nat \<Rightarrow> nat option \<Rightarrow> nat option \<Rightarrow> ('k, 'v) Node list \<Rightarrow> 'k list option" where
  "node_walk 0 p tail h = None"
| "node_walk (Suc n) None tail h = None"
| "node_walk (Suc n) (Some a) tail h =
     (if Some a = tail then Some []
      else map_option (Cons (node_key (h ! a))) (node_walk n (node_next (h ! a)) tail h))"

definition lfu_bucket_keys :: "int \<Rightarrow> error + ('k, 'v) MyLfuCache \<Rightarrow> error + 'k list option" where
  "lfu_bucket_keys f r =
     bind_err r (\<lambda>s. bind_err (lfu_freqlist_at f s) (\<lambda>fl.
       bind_err (Freqlist_getFirstNode fl (lfu_nodes s)) (\<lambda>first.
         Inr (node_walk (Suc (length (lfu_nodes s))) first (fl_tail fl) (lfu_nodes s)))))"

text \<open>
  Relations between the stores of two LFU states, used to follow the frequency
  fields: no node disappears, every node allocated since has frequency at least 1,
  and the frequency of a node already there is unchanged (\<open>freq_same\<close>) or not lower
  (\<open>freq_mono\<close>).
\<close>

definition freq_ok :: "('k, 'v) Node list \<Rightarrow> bool" where
  "freq_ok h \<longleftrightarrow> (\<forall>a < length h. 1 \<le> node_freq (h ! a))"

definition freq_mono :: "('k, 'v) Node list \<Rightarrow> ('k, 'v) Node list \<Rightarrow> bool" where
  "freq_mono h h' \<longleftrightarrow>
     length h \<le> length h' \<and> (\<forall>a < length h. node_freq (h ! a) \<le> node_freq (h' ! a))"

definition lfu_wf :: "('k, 'v) MyLfuCache \<Rightarrow> bool" where
  "lfu_wf s \<longleftrightarrow>
     freq_ok (lfu_nodes s) \<and>
     (\<forall>key node. map_of (lfu_nodeMap s) key = Some node \<longrightarrow> node < length (lfu_nodes s))"

definition freqs :: "('k, 'v) Node list \<Rightarrow> int list" where
  "freqs h = map node_freq h"

text \<open>Two LFU states that differ at most in the buckets and in the store.\<close>

definition lfu_frame :: "('k, 'v) MyLfuCache \<Rightarrow> ('k, 'v) MyLfuCache \<Rightarrow> bool" where
  "lfu_frame s s' \<longleftrightarrow>
     s' = s\<lparr>lfu_freqToFreqList := lfu_freqToFreqList s', lfu_nodes := lfu_nodes s'\<rparr>"


text \<open>
  What keeps the list surgery of the LFU engine free of null dereferences. \<open>fl_tails\<close>
  are the tail sentinels of the buckets. \<open>links_ok\<close>: every bucket has its two
  sentinels; a tail sentinel is allocated, has no successor and has a predecessor; no
  \<^verbatim>\<open>prev\<close> pointer of an allocated node dangles or points to a tail sentinel.
  \<open>lfu_mid_ok\<close> adds that the nodes of the index map are allocated and are not tail
  sentinels, \<open>lfu_buckets_for\<close> that the bucket of every such node's frequency exists.
\<close>

definition fl_tails :: "(int \<times> Freqlist) list \<Rightarrow> nat set" where
  "fl_tails m = {tl. \<exists>it \<in> set m. fl_tail (snd it) = Some tl}"

definition links_ok :: "(int \<times> Freqlist) list \<Rightarrow> ('k, 'v) Node list \<Rightarrow> bool" where
  "links_ok m h \<longleftrightarrow>
     (\<forall>it \<in> set m. fl_head (snd it) \<noteq> None \<and> fl_tail (snd it) \<noteq> None) \<and>
     (\<forall>tl \<in> fl_tails m. tl < length h \<and> node_next (h ! tl) = None \<and> node_prev (h ! tl) \<noteq> None) \<and>
     (\<forall>a < length h. \<forall>p. node_prev (h ! a) = Some p \<longrightarrow> p < length h \<and> p \<notin> fl_tails m)"

definition lfu_mid_ok :: "('k, 'v) MyLfuCache \<Rightarrow> bool" where
  "lfu_mid_ok s \<longleftrightarrow>
     links_ok (lfu_freqToFreqList s) (lfu_nodes s) \<and>
     (\<forall>it \<in> set (lfu_nodeMap s).
        snd it < length (lfu_nodes s) \<and> snd it \<notin> fl_tails (lfu_freqToFreqList s))"

definition lfu_buckets_for :: "('k, 'v) MyLfuCache \<Rightarrow> bool" where
  "lfu_buckets_for s \<longleftrightarrow>
     (\<forall>it \<in> set (lfu_nodeMap s).
        map_of (lfu_freqToFreqList s) (node_freq (lfu_nodes s ! snd it)) \<noteq> None)"

definition lfu_links_ok :: "('k, 'v) MyLfuCache \<Rightarrow> bool" where
  "lfu_links_ok s \<longleftrightarrow> lfu_mid_ok s \<and> lfu_buckets_for s"


text \<open>
  An LFU engine of capacity 1 and ceiling 1 after \<^verbatim>\<open>put(1,"A")\<close>, and what holds of it
  after \<open>n\<close> further \<^verbatim>\<open>get(1)\<close>.
\<close>

definition lfu_single :: "(int, string) MyLfuCache" where
  "lfu_single =
     \<lparr>lfu_capacity = 1, lfu_minFreq = 127, lfu_maxAverageNum = 1, lfu_curAverageNum = 0,
      lfu_curTotalNum = 0, lfu_nodeMap = [(1, 0)],
      lfu_freqToFreqList = [(1, \<lparr>fl_freq = 1, fl_head = Some 1, fl_tail = Some 2\<rparr>)],
      lfu_nodes =
        [\<lparr>node_freq = 1, node_key = 1, node_value = ''A'', node_prev = Some 1, node_next = Some 2\<rparr>,
         \<lparr>node_freq = 1, node_key = 0, node_value = [], node_prev = None, node_next = Some 0\<rparr>,
         \<lparr>node_freq = 1, node_key = 0, node_value = [], node_prev = Some 0, node_next = None\<rparr>],
      lfu_defaultKey = 0, lfu_defaultValue = []\<rparr>"

definition lfu_single_after :: "nat \<Rightarrow> (int, string) MyLfuCache \<Rightarrow> bool" where
  "lfu_single_after n s \<longleftrightarrow>
     lfu_links_ok s \<and> freq_ok (lfu_nodes s) \<and> lfu_nodeMap s = [(1, 0)] \<and>
     0 < length (lfu_nodes s) \<and> node_freq (lfu_nodes s ! 0) = int n + 1 \<and>
     lfu_curTotalNum s = int n \<and> lfu_maxAverageNum s = 1 \<and>
     (2 \<le> n \<longrightarrow> lfu_minFreq s < INT8_MAX)"

text \<open>
  Two states used as examples: an LRU cache of capacity 2 after \<^verbatim>\<open>put(2, "B")\<close>, and an
  LFU cache of capacity 2 and ceiling 10 after \<^verbatim>\<open>put("b", "B")\<close>.
\<close>

definition lru_example :: "(int, string) MyLruCache" where
  "lru_example =
     \<lparr>lru_capacity = 2, lru_nodeMap = [(2, 2)], lru_dummyHead = 0, lru_dummyTail = 1,
      lru_nodes =
        [\<lparr>lru_key = 0, lru_value = [], lru_visCount = 0, lru_prev = None, lru_next = Some 2\<rparr>,
         \<lparr>lru_key = 0, lru_value = [], lru_visCount = 0, lru_prev = Some 2, lru_next = None\<rparr>,
         \<lparr>lru_key = 2, lru_value = ''B'', lru_visCount = 0, lru_prev = Some 0, lru_next = Some 1\<rparr>]\<rparr>"

definition lfu_example :: "(string, string) MyLfuCache" where
  "lfu_example =
     \<lparr>lfu_capacity = 2, lfu_minFreq = 127, lfu_maxAverageNum = 10, lfu_curAverageNum = 0,
      lfu_curTotalNum = 0, lfu_nodeMap = [(''b'', 0)],
      lfu_freqToFreqList = [(1, \<lparr>fl_freq = 1, fl_head = Some 1, fl_tail = Some 2\<rparr>)],
      lfu_nodes =
        [\<lparr>node_freq = 1, node_key = ''b'', node_value = ''B'', node_prev = Some 1, node_next = Some 2\<rparr>,
         \<lparr>node_freq = 1, node_key = [], node_value = [], node_prev = None, node_next = Some 0\<rparr>,
         \<lparr>node_freq = 1, node_key = [], node_value = [], node_prev = Some 0, node_next = None\<rparr>],
      lfu_defaultKey = [], lfu_defaultValue = []\<rparr>"

text \<open>The LFU example after a further \<^verbatim>\<open>get("b")\<close>.\<close>

definition lfu_example_get :: "(string, string) MyLfuCache" where
  "lfu_example_get =
     \<lparr>lfu_capacity = 2, lfu_minFreq = 127, lfu_maxAverageNum = 10, lfu_curAverageNum = 1,
      lfu_curTotalNum = 1, lfu_nodeMap = [(''b'', 0)],
      lfu_freqToFreqList =
        [(1, \<lparr>fl_freq = 1, fl_head = Some 1, fl_tail = Some 2\<rparr>),
         (2, \<lparr>fl_freq = 2, fl_head = Some 3, fl_tail = Some 4\<rparr>)],
      lfu_nodes =
        [\<lparr>node_freq = 2, node_key = ''b'', node_value = ''B'', node_prev = Some 3, node_next = Some 4\<rparr>,
         \<lparr>node_freq = 1, node_key = [], node_value = [], node_prev = None, node_next = Some 2\<rparr>,
         \<lparr>node_freq = 1, node_key = [], node_value = [], node_prev = Some 1, node_next = None\<rparr>,
         \<lparr>node_freq = 1, node_key = [], node_value = [], node_prev = None, node_next = Some 0\<rparr>,
         \<lparr>node_freq = 1, node_key = [], node_value = [], node_prev = Some 0, node_next = None\<rparr>],
      lfu_defaultKey = [], lfu_defaultValue = []\<rparr>"

text \<open>
  A K-promotion wrapper over \<^verbatim>\<open>size_t\<close> keys with both capacities 2 and threshold 2:
  after \<^verbatim>\<open>put(5,"v")\<close>; after \<^verbatim>\<open>put(5,"v")\<close> and \<^verbatim>\<open>get(5)\<close>; after \<^verbatim>\<open>put(5,"v")\<close> and
  \<^verbatim>\<open>put(5,"w")\<close>.
\<close>

definition klru_example :: "nat MyKLruCache" where
  "klru_example =
     \<lparr>klru_base = MyLruCache 0 [] 2, klru_k = 2,
      klru_historyList =
        \<lparr>lru_capacity = 2, lru_nodeMap = [(5, 2)], lru_dummyHead = 0, lru_dummyTail = 1,
         lru_nodes =
           [\<lparr>lru_key = 0, lru_value = 0, lru_visCount = 0, lru_prev = None, lru_next = Some 2\<rparr>,
            \<lparr>lru_key = 0, lru_value = 0, lru_visCount = 0, lru_prev = Some 2, lru_next = None\<rparr>,
            \<lparr>lru_key = 5, lru_value = 1, lru_visCount = 0, lru_prev = Some 0, lru_next = Some 1\<rparr>]\<rparr>\<rparr>"

definition klru_example_get :: "nat MyKLruCache" where
  "klru_example_get =
     \<lparr>klru_base = MyLruCache 0 [] 2, klru_k = 2,
      klru_historyList =
        \<lparr>lru_capacity = 2, lru_nodeMap = [(5, 2)], lru_dummyHead = 0, lru_dummyTail = 1,
         lru_nodes =
           [\<lparr>lru_key = 0, lru_value = 0, lru_visCount = 0, lru_prev = None, lru_next = Some 2\<rparr>,
            \<lparr>lru_key = 0, lru_value = 0, lru_visCount = 0, lru_prev = Some 2, lru_next = None\<rparr>,
            \<lparr>lru_key = 5, lru_value = 2, lru_visCount = 0, lru_prev = Some 0, lru_next = Some 1\<rparr>]\<rparr>\<rparr>"

definition klru_example_put :: "nat MyKLruCache" where
  "klru_example_put =
     \<lparr>klru_base =
        \<lparr>lru_capacity = 2, lru_nodeMap = [(5, 2)], lru_dummyHead = 0, lru_dummyTail = 1,
         lru_nodes =
           [\<lparr>lru_key = 0, lru_value = [], lru_visCount = 0, lru_prev = None, lru_next = Some 2\<rparr>,
            \<lparr>lru_key = 0, lru_value = [], lru_visCount = 0, lru_prev = Some 2, lru_next = None\<rparr>,
            \<lparr>lru_key = 5, lru_value = ''w'', lru_visCount = 0, lru_prev = Some 0, lru_next = Some 1\<rparr>]\<rparr>,
      klru_k = 2,
      klru_historyList =
        \<lparr>lru_capacity = 2, lru_nodeMap = [], lru_dummyHead = 0, lru_dummyTail = 1,
         lru_nodes =
           [\<lparr>lru_key = 0, lru_value = 0, lru_visCount = 0, lru_prev = None, lru_next = Some 1\<rparr>,
            \<lparr>lru_key = 0, lru_value = 0, lru_visCount = 0, lru_prev = Some 0, lru_next = None\<rparr>,
            \<lparr>lru_key = 5, lru_value = 2, lru_visCount = 0, lru_prev = Some 0, lru_next = Some 1\<rparr>]\<rparr>\<rparr>"

text \<open>
  A sharded cache of capacity 4 in 2 slices, each shard with history capacity 2 and
  threshold 2, as constructed and after \<^verbatim>\<open>put(5,"v")\<close>. \<open>hash_id\<close> is a
  \<^verbatim>\<open>std::hash<size_t>\<close> that returns its argument.
\<close>

definition hash_id :: "nat \<Rightarrow> nat" where
  "hash_id key = key"

definition hash_example :: "nat MyHashLru" where
  "hash_example =
     \<lparr>hash_capacity = 4, hash_sliceNum = 2,
      hash_lruSliceCaches = [MyKLruCache 0 2 2 2, MyKLruCache 0 2 2 2]\<rparr>"

definition hash_example_put :: "nat MyHashLru" where
  "hash_example_put =
     \<lparr>hash_capacity = 4, hash_sliceNum = 2,
      hash_lruSliceCaches = [MyKLruCache 0 2 2 2, klru_example]\<rparr>"

section \<open>The example states are reached by the public operations\<close>

lemma lru_example_reached:
  "run_ops (lru_step []) [LruPut 2 ''B''] (MyLruCache 0 [] 2) = Inr lru_example"
  by code_simp

lemma lfu_example_reached:
  "run_ops lfu_step [LfuPut ''b'' ''B''] (MyLfuCache [] [] 0 2 10) = Inr lfu_example"
  by code_simp

lemma klru_example_reached:
  "run_ops klru_step [KPut 5 ''v''] (MyKLruCache 0 2 2 2) = Inr klru_example"
  by code_simp

lemma klru_example_get_reached:
  "klru_get ''u'' 5 klru_example = Inr ([], klru_example_get)"
  by code_simp

lemma klru_example_put_reached:
  "run_ops klru_step [KPut 5 ''v'', KPut 5 ''w''] (MyKLruCache 0 2 2 2) = Inr klru_example_put"
  by code_simp

lemma hash_example_reached:
  "MyHashLru 0 8 2 2 4 2 = Inr hash_example"
  by code_simp

lemma hash_example_put_reached:
  "hash_put hash_id 5 ''v'' hash_example = Inr hash_example_put"
  by code_simp

lemma hash_example_run:
  "run_ops (hash_step hash_id) [HashPut 5 ''v'', HashGet 5] hash_example = Inr hash_example_put"
  by code_simp

lemma lfu_example_get_reached:
  "lfu_step (LfuGet ''b'') lfu_example = Inr lfu_example_get"
  by code_simp

section \<open>Scenario A on the LRU engine\<close>

text \<open>
  C5. On \<^verbatim>\<open>MyLruCache<int, std::string>\<close> of capacity 2, after \<^verbatim>\<open>put(1,"A")\<close>,
  \<^verbatim>\<open>put(2,"B")\<close>, \<^verbatim>\<open>get(1)\<close>, \<^verbatim>\<open>put(3,"C")\<close> the claim expects key 2 to be gone and keys 1
  and 3 to be present. The code unlinks the node of key 2 but erases key 1 from the index
  map (\<^verbatim>\<open>evictLeastRecent\<close> reads the key through a reference to \<^verbatim>\<open>dummyHead_->next_\<close>
  after the removal): the index map holds keys 2 and 3, \<^verbatim>\<open>get(2)\<close> finds "B",
  \<^verbatim>\<open>get(1)\<close> misses, \<^verbatim>\<open>get(3)\<close> finds "C".
\<close>

theorem lru_scenario_A_evicts_wrong_key:
  "lru_index_keys (run_ops (lru_step [])
       [LruPut 1 ''A'', LruPut 2 ''B'', LruGet 1, LruPut 3 ''C''] (MyLruCache (0::int) [] 2))
     = Inr [2, 3]
   \<and> lru_lookup_after 2 [] (run_ops (lru_step [])
       [LruPut 1 ''A'', LruPut 2 ''B'', LruGet 1, LruPut 3 ''C''] (MyLruCache (0::int) [] 2))
     = Inr (True, ''B'')
   \<and> lru_lookup_after 1 [] (run_ops (lru_step [])
       [LruPut 1 ''A'', LruPut 2 ''B'', LruGet 1, LruPut 3 ''C''] (MyLruCache (0::int) [] 2))
     = Inr (False, [])
   \<and> lru_lookup_after 3 [] (run_ops (lru_step [])
       [LruPut 1 ''A'', LruPut 2 ''B'', LruGet 1, LruPut 3 ''C''] (MyLruCache (0::int) [] 2))
     = Inr (True, ''C'')"
  by code_simp

section \<open>An LRU engine of capacity 0\<close>

text \<open>
  C6. The claim makes \<^verbatim>\<open>put\<close> a no-operation for every capacity that is 0 or less.
  The guard on line 69 is \<^verbatim>\<open>capacity_ < 0\<close>, so with capacity 0 \<^verbatim>\<open>put(1,"A")\<close> reaches
  \<^verbatim>\<open>addNode\<close>; the eviction that follows unlinks the new node and erases the key of the
  tail sentinel instead of key 1. Key 1 stays in the index map, and \<^verbatim>\<open>get(1)\<close> afterwards
  finds "A".
\<close>

theorem lru_capacity_zero_put_is_not_a_noop:
  "lru_index_keys (run_ops (lru_step []) [LruPut 1 ''A''] (MyLruCache (0::int) [] 0)) = Inr [1]
   \<and> lru_lookup_after 1 [] (run_ops (lru_step []) [LruPut 1 ''A''] (MyLruCache (0::int) [] 0))
     = Inr (True, ''A'')
   \<and> lru_lookup_after 1 [] (Inr (MyLruCache (0::int) ([]::string) 0)) = Inr (False, [])"
  by code_simp

section \<open>Index map and lists after a public operation\<close>

text \<open>
  C2. The claim bounds the index map by the capacity and equates its keys with the
  entries linked between the sentinels. On an LRU engine of capacity 1, after
  \<^verbatim>\<open>put(1,"A")\<close> and \<^verbatim>\<open>put(2,"B")\<close> the index map holds key 1 while the only node between
  the sentinels is the node of key 2. On an LFU engine of capacity 1 and ceiling 1, after
  \<^verbatim>\<open>put("a","A")\<close>, \<^verbatim>\<open>get("a")\<close>, \<^verbatim>\<open>get("a")\<close>, \<^verbatim>\<open>put("b","B")\<close>, \<^verbatim>\<open>put("c","C")\<close> the index
  map holds two keys.
\<close>

theorem index_map_and_lists_diverge:
  "lru_index_keys (run_ops (lru_step []) [LruPut 1 ''A'', LruPut 2 ''B''] (MyLruCache (0::int) [] 1))
     = Inr [1]
   \<and> lru_reachable_keys (run_ops (lru_step []) [LruPut 1 ''A'', LruPut 2 ''B''] (MyLruCache (0::int) [] 1))
     = Inr (Some [2])
   \<and> lfu_entries (run_ops lfu_step
       [LfuPut ''a'' ''A'', LfuGet ''a'', LfuGet ''a'', LfuPut ''b'' ''B'', LfuPut ''c'' ''C'']
       (MyLfuCache [] [] 0 1 1))
     = Inr [(''b'', 1), (''c'', 1)]"
  by code_simp

section \<open>Admission of a new key into a full LFU engine\<close>

text \<open>
  C3. The claim has a \<^verbatim>\<open>put\<close> of an absent key at capacity evict the front of the bucket
  of \<^verbatim>\<open>minFreq_\<close> and leave \<^verbatim>\<open>minFreq_\<close> at 1. \<^verbatim>\<open>putInternal\<close> never assigns
  \<^verbatim>\<open>minFreq_\<close>. On an engine of capacity 1 and ceiling 10, \<^verbatim>\<open>put(1,"A")\<close> then
  \<^verbatim>\<open>put(2,"B")\<close> calls \<^verbatim>\<open>kickOut\<close> with \<^verbatim>\<open>minFreq_\<close> still \<^verbatim>\<open>INT8_MAX\<close>, where no bucket
  exists: a call through a null pointer. On an engine of capacity 1 and ceiling 1, after
  \<^verbatim>\<open>put("a","A")\<close>, \<^verbatim>\<open>get("a")\<close>, \<^verbatim>\<open>get("a")\<close> a rebalance has set \<^verbatim>\<open>minFreq_\<close> to 3;
  \<^verbatim>\<open>put("b","B")\<close> then evicts "a" from bucket 3, takes 3 off \<^verbatim>\<open>curTotalNum_\<close> and
  links "b" into bucket 1, and \<^verbatim>\<open>minFreq_\<close> is still 3.
\<close>

theorem lfu_new_key_leaves_minFreq:
  "run_ops lfu_step [LfuPut 1 ''A'', LfuPut 2 ''B''] (MyLfuCache (0::int) [] 0 1 10) = Inl NullDeref
   \<and> lfu_counters (run_ops lfu_step [LfuPut ''a'' ''A'', LfuGet ''a'', LfuGet ''a'']
        (MyLfuCache [] [] 0 1 1)) = Inr (3, 2, 2)
   \<and> lfu_counters (run_ops lfu_step [LfuPut ''a'' ''A'', LfuGet ''a'', LfuGet ''a'', LfuPut ''b'' ''B'']
        (MyLfuCache [] [] 0 1 1)) = Inr (3, - 1, 0)
   \<and> lfu_entries (run_ops lfu_step [LfuPut ''a'' ''A'', LfuGet ''a'', LfuGet ''a'', LfuPut ''b'' ''B'']
        (MyLfuCache [] [] 0 1 1)) = Inr [(''b'', 1)]
   \<and> lfu_bucket_keys 1 (run_ops lfu_step [LfuPut ''a'' ''A'', LfuGet ''a'', LfuGet ''a'', LfuPut ''b'' ''B'']
        (MyLfuCache [] [] 0 1 1)) = Inr (Some [''b''])"
  by code_simp

section \<open>Purging the LFU engine\<close>

text \<open>
  \<^verbatim>\<open>purge\<close> clears the two maps and writes no counter: the index map is empty and no
  bucket remains, and \<^verbatim>\<open>minFreq_\<close>, \<^verbatim>\<open>curTotalNum_\<close> and \<^verbatim>\<open>curAverageNum_\<close> are what
  they were before the call.
\<close>

lemma lfu_purge_clears_maps_only:
  "lfu_nodeMap (lfu_purge s) = []
   \<and> lfu_freqToFreqList (lfu_purge s) = []
   \<and> lfu_minFreq (lfu_purge s) = lfu_minFreq s
   \<and> lfu_curTotalNum (lfu_purge s) = lfu_curTotalNum s
   \<and> lfu_curAverageNum (lfu_purge s) = lfu_curAverageNum s
   \<and> lfu_capacity (lfu_purge s) = lfu_capacity s
   \<and> lfu_maxAverageNum (lfu_purge s) = lfu_maxAverageNum s"
  by (simp add: lfu_purge_def)

text \<open>
  C7. The claim has \<^verbatim>\<open>purge\<close> return the counters to their constructed values. On an
  engine of capacity 2 and ceiling 10 whose \<^verbatim>\<open>curTotalNum_\<close> starts at 0, the counters
  after \<^verbatim>\<open>put(1,"A")\<close>, \<^verbatim>\<open>get(1)\<close>, \<^verbatim>\<open>purge()\<close> are \<^verbatim>\<open>minFreq_\<close> = 127,
  \<^verbatim>\<open>curTotalNum_\<close> = 1, \<^verbatim>\<open>curAverageNum_\<close> = 1 over an empty index map; the constructed
  ones are 127, 0, 0. Every other removal of an entry keeps the counters in step
  (\<^verbatim>\<open>kickOut\<close> takes the entry's frequency off \<^verbatim>\<open>curTotalNum_\<close>, and
  \<^verbatim>\<open>decreaseFreqNum\<close> sets \<^verbatim>\<open>curAverageNum_\<close> to 0 on an empty map), so the accesses
  of purged entries go on counting: on an engine of capacity 2 and ceiling 2, after
  \<^verbatim>\<open>put("a","A")\<close>, \<^verbatim>\<open>get("a")\<close>, \<^verbatim>\<open>get("a")\<close>, \<^verbatim>\<open>purge()\<close>, \<^verbatim>\<open>put("b","B")\<close> the first
  \<^verbatim>\<open>get("b")\<close> finds an average of 3 over one entry, runs the rebalance and leaves "b"
  at frequency 1 with counters 1, 3, 3; on a fresh engine the same \<^verbatim>\<open>put("b","B")\<close>,
  \<^verbatim>\<open>get("b")\<close> leaves "b" at frequency 2 with counters 127, 1, 1.
\<close>

theorem lfu_purge_leaves_counters_stale:
  "lfu_counters (run_ops lfu_step [LfuPut 1 ''A'', LfuGet 1, LfuPurge] (MyLfuCache (0::int) [] 0 2 10))
     = Inr (127, 1, 1)
   \<and> lfu_entries (run_ops lfu_step [LfuPut 1 ''A'', LfuGet 1, LfuPurge] (MyLfuCache (0::int) [] 0 2 10))
     = Inr []
   \<and> lfu_counters (Inr (MyLfuCache (0::int) [] 0 2 10)) = Inr (127, 0, 0)
   \<and> lfu_entries (run_ops lfu_step
        [LfuPut ''a'' ''A'', LfuGet ''a'', LfuGet ''a'', LfuPurge, LfuPut ''b'' ''B'', LfuGet ''b'']
        (MyLfuCache [] [] 0 2 2)) = Inr [(''b'', 1)]
   \<and> lfu_counters (run_ops lfu_step
        [LfuPut ''a'' ''A'', LfuGet ''a'', LfuGet ''a'', LfuPurge, LfuPut ''b'' ''B'', LfuGet ''b'']
        (MyLfuCache [] [] 0 2 2)) = Inr (1, 3, 3)
   \<and> lfu_entries (run_ops lfu_step [LfuPut ''b'' ''B'', LfuGet ''b''] (MyLfuCache [] [] 0 2 2))
     = Inr [(''b'', 2)]
   \<and> lfu_counters (run_ops lfu_step [LfuPut ''b'' ''B'', LfuGet ''b''] (MyLfuCache [] [] 0 2 2))
     = Inr (127, 1, 1)"
  by code_simp

section \<open>A miss leaves the cache as it was\<close>

text \<open>
  C10. For a key that the index map does not hold, the two-argument \<^verbatim>\<open>get\<close> of the LRU
  engine and of the LFU engine returns false, leaves the reference parameter as it was
  and returns the cache unchanged: index map, nodes, links, frequencies and counters.
\<close>

theorem get_miss_changes_nothing:
  "(map_of (lru_nodeMap s) key = None \<longrightarrow> lru_get_ref key value s = Inr (False, value, s))
   \<and> (map_of (lfu_nodeMap t) key' = None \<longrightarrow> lfu_get_ref key' value' t = Inr (False, value', t))"
  by (simp add: lru_get_ref_def lfu_get_ref_def)

theorem get_miss_changes_nothing_witness:
  "map_of (lru_nodeMap lru_example) 1 = None
   \<and> lru_get_ref 1 ''x'' lru_example = Inr (False, ''x'', lru_example)
   \<and> map_of (lfu_nodeMap lfu_example) ''a'' = None
   \<and> lfu_get_ref ''a'' ''x'' lfu_example = Inr (False, ''x'', lfu_example)"
  using get_miss_changes_nothing [of lru_example 1 "''x''" lfu_example "''a''" "''x''"]
  by (simp add: lru_example_def lfu_example_def)


section \<open>Frequencies in the LFU engine\<close>

text \<open>
  The frequency fields are followed through every function of the engine: the list
  surgery of \<^verbatim>\<open>Freqlist\<close> leaves them alone, a new bucket adds two sentinels of
  frequency 1, an access adds 1 to one node, and the rebalance writes values that are
  at least 1.
\<close>

lemma bind_err_Inr: "bind_err m f = Inr y \<longleftrightarrow> (\<exists>x. m = Inr x \<and> f x = Inr y)"
  by (cases m) (simp_all add: bind_err_def)

lemma map_update_same: "f x = f (h ! a) \<Longrightarrow> map f (h[a := x]) = map f h"
  by (metis list_update_id map_update)

lemma freqs_set_prev: "freqs (node_set_prev a p h) = freqs h"
  by (simp add: freqs_def node_set_prev_def map_update_same)

lemma freqs_set_next: "freqs (node_set_next a p h) = freqs h"
  by (simp add: freqs_def node_set_next_def map_update_same)

lemma freqs_set_value: "freqs (node_set_value a p h) = freqs h"
  by (simp add: freqs_def node_set_value_def map_update_same)

lemma freqs_set_freq: "freqs (node_set_freq a f h) = (freqs h)[a := f]"
  by (simp add: freqs_def node_set_freq_def map_update)

lemma Freqlist_remove_freqs: "Freqlist_remove node fl h = Inr h' \<Longrightarrow> freqs h' = freqs h"
  by (auto simp: Freqlist_remove_def Let_def freqs_set_prev freqs_set_next split: option.splits)

lemma Freqlist_addNode_freqs: "Freqlist_addNode node fl h = Inr h' \<Longrightarrow> freqs h' = freqs h"
  by (auto simp: Freqlist_addNode_def Let_def freqs_set_prev freqs_set_next split: option.splits)

lemma Freqlist_freqs: "Freqlist dk dv n h = (fl, h') \<Longrightarrow> freqs h' = freqs h @ [1, 1]"
  by (auto simp: Freqlist_def Let_def freqs_def Node_def)

lemma lfu_frame_refl: "lfu_frame s s"
  by (simp add: lfu_frame_def)

lemma lfu_frame_nodes: "lfu_frame s (s\<lparr>lfu_nodes := h\<rparr>)"
  by (simp add: lfu_frame_def)

lemma lfu_frame_fields:
  assumes "lfu_frame s s'"
  shows "lfu_nodeMap s' = lfu_nodeMap s" "lfu_minFreq s' = lfu_minFreq s"
    "lfu_maxAverageNum s' = lfu_maxAverageNum s" "lfu_curAverageNum s' = lfu_curAverageNum s"
    "lfu_curTotalNum s' = lfu_curTotalNum s" "lfu_capacity s' = lfu_capacity s"
    "lfu_defaultKey s' = lfu_defaultKey s" "lfu_defaultValue s' = lfu_defaultValue s"
proof -
  from assms have e: "s' = s\<lparr>lfu_freqToFreqList := lfu_freqToFreqList s', lfu_nodes := lfu_nodes s'\<rparr>"
    by (simp add: lfu_frame_def)
  show "lfu_nodeMap s' = lfu_nodeMap s" using arg_cong [OF e, of lfu_nodeMap] by simp
  show "lfu_minFreq s' = lfu_minFreq s" using arg_cong [OF e, of lfu_minFreq] by simp
  show "lfu_maxAverageNum s' = lfu_maxAverageNum s" using arg_cong [OF e, of lfu_maxAverageNum] by simp
  show "lfu_curAverageNum s' = lfu_curAverageNum s" using arg_cong [OF e, of lfu_curAverageNum] by simp
  show "lfu_curTotalNum s' = lfu_curTotalNum s" using arg_cong [OF e, of lfu_curTotalNum] by simp
  show "lfu_capacity s' = lfu_capacity s" using arg_cong [OF e, of lfu_capacity] by simp
  show "lfu_defaultKey s' = lfu_defaultKey s" using arg_cong [OF e, of lfu_defaultKey] by simp
  show "lfu_defaultValue s' = lfu_defaultValue s" using arg_cong [OF e, of lfu_defaultValue] by simp
qed

lemma lfu_frameI:
  assumes "lfu_nodeMap s' = lfu_nodeMap s" "lfu_minFreq s' = lfu_minFreq s"
    "lfu_maxAverageNum s' = lfu_maxAverageNum s" "lfu_curAverageNum s' = lfu_curAverageNum s"
    "lfu_curTotalNum s' = lfu_curTotalNum s" "lfu_capacity s' = lfu_capacity s"
    "lfu_defaultKey s' = lfu_defaultKey s" "lfu_defaultValue s' = lfu_defaultValue s"
  shows "lfu_frame s s'"
  unfolding lfu_frame_def using assms by (cases s, cases s') simp

lemma lfu_frame_trans: "lfu_frame s1 s2 \<Longrightarrow> lfu_frame s2 s3 \<Longrightarrow> lfu_frame s1 s3"
  by (intro lfu_frameI) (simp_all add: lfu_frame_fields)

lemma lfu_removeFromFreqList_frame:
  "lfu_removeFromFreqList node s = Inr s' \<Longrightarrow>
     lfu_frame s s' \<and> lfu_freqToFreqList s' = lfu_freqToFreqList s \<and> freqs (lfu_nodes s') = freqs (lfu_nodes s)"
  by (auto simp: lfu_removeFromFreqList_def Let_def bind_err_Inr lfu_frame_refl lfu_frame_nodes
      split: option.splits dest: Freqlist_remove_freqs)

lemma lfu_addToFreqList_frame:
  "lfu_addToFreqList node s = Inr s' \<Longrightarrow>
     lfu_frame s s' \<and>
     (\<exists>zs. freqs (lfu_nodes s') = freqs (lfu_nodes s) @ zs \<and> (\<forall>z \<in> set zs. z = 1))"
  apply (cases node)
   apply (simp add: lfu_addToFreqList_def lfu_frame_refl)
  apply (simp add: lfu_addToFreqList_def Let_def bind_err_Inr split: if_splits prod.splits)
   apply (auto dest!: Freqlist_addNode_freqs Freqlist_freqs simp: lfu_frame_def)
  done

lemma freq_ok_freqs: "freq_ok h \<longleftrightarrow> (\<forall>x \<in> set (freqs h). 1 \<le> x)"
  by (force simp: freq_ok_def freqs_def in_set_conv_nth)

lemma freq_mono_freqs:
  "freq_mono h h' \<longleftrightarrow> length (freqs h) \<le> length (freqs h') \<and> (\<forall>a < length (freqs h). freqs h ! a \<le> freqs h' ! a)"
  by (auto simp: freq_mono_def freqs_def)

lemma length_freqs: "length (freqs h) = length h"
  by (simp add: freqs_def)

lemma freq_mono_refl: "freqs h' = freqs h \<Longrightarrow> freq_mono h h'"
  by (simp add: freq_mono_freqs)

lemma freq_mono_trans: "freq_mono h1 h2 \<Longrightarrow> freq_mono h2 h3 \<Longrightarrow> freq_mono h1 h3"
  unfolding freq_mono_def by (meson order_trans less_le_trans)

lemma freq_mono_append: "freqs h' = freqs h @ zs \<Longrightarrow> freq_mono h h'"
  by (simp add: freq_mono_freqs nth_append)

lemma freq_mono_update: "freqs h' = (freqs h)[a := f] \<Longrightarrow> (a < length h \<Longrightarrow> freqs h ! a \<le> f) \<Longrightarrow> freq_mono h h'"
  unfolding freq_mono_freqs
proof (intro conjI allI impI)
  fix b
  assume e: "freqs h' = (freqs h)[a := f]" and f: "a < length h \<Longrightarrow> freqs h ! a \<le> f"
    and b: "b < length (freqs h)"
  show "freqs h ! b \<le> freqs h' ! b"
    using e f b by (cases "b = a") (simp_all add: length_freqs)
qed simp

lemma freq_ok_append: "freq_ok h \<Longrightarrow> freqs h' = freqs h @ zs \<Longrightarrow> \<forall>z \<in> set zs. z = 1 \<Longrightarrow> freq_ok h'"
  by (auto simp: freq_ok_freqs)

lemma freq_ok_update: "freq_ok h \<Longrightarrow> freqs h' = (freqs h)[a := f] \<Longrightarrow> 1 \<le> f \<Longrightarrow> freq_ok h'"
  by (auto simp: freq_ok_freqs dest!: set_update_subset_insert [THEN subsetD])

lemma freq_ok_same: "freq_ok h \<Longrightarrow> freqs h' = freqs h \<Longrightarrow> freq_ok h'"
  by (simp add: freq_ok_freqs)

text \<open>The loop of the rebalance and the functions around it.\<close>

lemma lfu_handleOverMaxAverageNum_loop_frame:
  "lfu_handleOverMaxAverageNum_loop m s = Inr s' \<Longrightarrow> freq_ok (lfu_nodes s) \<Longrightarrow>
     lfu_frame s s' \<and> freq_ok (lfu_nodes s') \<and> length (lfu_nodes s) \<le> length (lfu_nodes s')"
proof (induction m arbitrary: s)
  case Nil
  then show ?case by (simp add: lfu_frame_refl)
next
  case (Cons it rest)
  let ?f = "\<lambda>s1. if node_freq (lfu_nodes s1 ! snd it) - cpp_div (lfu_maxAverageNum s1) 2 < 1 then 1
              else node_freq (lfu_nodes s1 ! snd it) - cpp_div (lfu_maxAverageNum s1) 2"
  let ?s2 = "\<lambda>s1. s1\<lparr>lfu_nodes := node_set_freq (snd it) (?f s1) (lfu_nodes s1)\<rparr>"
  from Cons.prems(1) obtain s1 s3 where
    r: "lfu_removeFromFreqList (Some (snd it)) s = Inr s1" and
    a: "lfu_addToFreqList (Some (snd it)) (?s2 s1) = Inr s3" and
    l: "lfu_handleOverMaxAverageNum_loop rest s3 = Inr s'"
    by (auto simp: Let_def bind_err_Inr)
  note fr = lfu_removeFromFreqList_frame [OF r]
  note fa = lfu_addToFreqList_frame [OF a]
  have ok1: "freq_ok (lfu_nodes s1)"
    using Cons.prems(2) fr by (auto intro: freq_ok_same)
  have "1 \<le> ?f s1" by simp
  then have ok2: "freq_ok (lfu_nodes (?s2 s1))"
    using ok1 by (auto intro!: freq_ok_update [where h = "lfu_nodes s1"] simp: freqs_set_freq)
  from fa obtain zs where zs: "freqs (lfu_nodes s3) = freqs (lfu_nodes (?s2 s1)) @ zs" "\<forall>z \<in> set zs. z = 1"
    by blast
  have ok3: "freq_ok (lfu_nodes s3)"
    using ok2 zs by (rule freq_ok_append)
  have len: "length (lfu_nodes s) \<le> length (lfu_nodes s3)"
    using arg_cong [OF conjunct2 [OF conjunct2 [OF fr]], of length] arg_cong [OF zs(1), of length]
    by (simp add: length_freqs freqs_set_freq del: if_split)
  from Cons.IH [OF l ok3] have ih:
    "lfu_frame s3 s'" "freq_ok (lfu_nodes s')" "length (lfu_nodes s3) \<le> length (lfu_nodes s')"
    by blast+
  have "lfu_frame s1 (?s2 s1)" by (rule lfu_frame_nodes)
  then have "lfu_frame s s3"
    using fr fa by (blast intro: lfu_frame_trans)
  then show ?case
    using ih len by (auto intro: lfu_frame_trans)
qed

lemma lfu_updateMinFreq_nodes:
  "lfu_updateMinFreq s = Inr s' \<Longrightarrow> \<exists>m. s' = s\<lparr>lfu_minFreq := m\<rparr>"
  by (auto simp: lfu_updateMinFreq_def bind_err_Inr)

lemma bind_err_cong_Inr: "(\<And>x. m = Inr x \<Longrightarrow> f x = g x) \<Longrightarrow> bind_err m f = bind_err m g"
  by (cases m) (simp_all add: bind_err_def)

lemma lfu_average_counters:
  "lfu_nodeMap t = lfu_nodeMap s \<Longrightarrow> lfu_curTotalNum t = lfu_curTotalNum s \<Longrightarrow>
     lfu_average (t\<lparr>lfu_curTotalNum := lfu_curTotalNum t + 1\<rparr>)
       = lfu_average (s\<lparr>lfu_curTotalNum := lfu_curTotalNum s + 1\<rparr>)"
  by (simp add: lfu_average_def)

lemma lfu_handleOverMaxAverageNum_in_frame:
  assumes "lfu_handleOverMaxAverageNum_in walk s = Inr s'" "freq_ok (lfu_nodes s)"
  shows "freq_ok (lfu_nodes s') \<and> length (lfu_nodes s) \<le> length (lfu_nodes s') \<and>
         lfu_nodeMap s' = lfu_nodeMap s \<and> lfu_maxAverageNum s' = lfu_maxAverageNum s \<and>
         lfu_curAverageNum s' = lfu_curAverageNum s \<and> lfu_curTotalNum s' = lfu_curTotalNum s \<and>
         lfu_capacity s' = lfu_capacity s"
proof (cases "lfu_nodeMap s = []")
  case True
  with assms show ?thesis by (simp add: lfu_handleOverMaxAverageNum_in_def)
next
  case False
  with assms(1) obtain s1 where
    l: "lfu_handleOverMaxAverageNum_loop walk s = Inr s1" and u: "lfu_updateMinFreq s1 = Inr s'"
    by (auto simp: lfu_handleOverMaxAverageNum_in_def bind_err_Inr)
  from lfu_handleOverMaxAverageNum_loop_frame [OF l assms(2)] lfu_updateMinFreq_nodes [OF u]
  show ?thesis by (auto simp: lfu_frame_fields)
qed

lemma lfu_addFreqNum_in_frame:
  assumes "lfu_addFreqNum_in walk s = Inr s'" "freq_ok (lfu_nodes s)"
  shows "freq_ok (lfu_nodes s') \<and> length (lfu_nodes s) \<le> length (lfu_nodes s') \<and>
         lfu_nodeMap s' = lfu_nodeMap s \<and> lfu_maxAverageNum s' = lfu_maxAverageNum s \<and>
         lfu_capacity s' = lfu_capacity s \<and> lfu_curTotalNum s' = lfu_curTotalNum s + 1 \<and>
         lfu_curAverageNum s' = lfu_average (s\<lparr>lfu_curTotalNum := lfu_curTotalNum s + 1\<rparr>) \<and>
         (\<not> lfu_average (s\<lparr>lfu_curTotalNum := lfu_curTotalNum s + 1\<rparr>) > lfu_maxAverageNum s \<longrightarrow>
            lfu_nodes s' = lfu_nodes s)"
proof -
  let ?s1 = "s\<lparr>lfu_curTotalNum := lfu_curTotalNum s + 1\<rparr>"
  let ?s2 = "?s1\<lparr>lfu_curAverageNum := lfu_average ?s1\<rparr>"
  show ?thesis
  proof (cases "lfu_curAverageNum ?s2 > lfu_maxAverageNum ?s2")
    case True
    with assms(1) have h: "lfu_handleOverMaxAverageNum_in walk ?s2 = Inr s'"
      by (simp add: lfu_addFreqNum_in_def Let_def)
    have "freq_ok (lfu_nodes ?s2)" using assms(2) by simp
    from lfu_handleOverMaxAverageNum_in_frame [OF h this] True
    show ?thesis by simp
  next
    case False
    with assms(1) have "s' = ?s2"
      by (simp add: lfu_addFreqNum_in_def Let_def)
    with assms(2) False show ?thesis by simp
  qed
qed

lemma lfu_getInternal_in_frame:
  assumes "lfu_getInternal_in walk node s = Inr s'" "freq_ok (lfu_nodes s)"
  shows "freq_ok (lfu_nodes s') \<and> length (lfu_nodes s) \<le> length (lfu_nodes s') \<and>
         lfu_nodeMap s' = lfu_nodeMap s \<and> lfu_maxAverageNum s' = lfu_maxAverageNum s \<and>
         lfu_capacity s' = lfu_capacity s \<and> lfu_curTotalNum s' = lfu_curTotalNum s + 1 \<and>
         lfu_curAverageNum s' = lfu_average (s\<lparr>lfu_curTotalNum := lfu_curTotalNum s + 1\<rparr>) \<and>
         (\<not> lfu_average (s\<lparr>lfu_curTotalNum := lfu_curTotalNum s + 1\<rparr>) > lfu_maxAverageNum s \<longrightarrow>
            freq_mono (lfu_nodes s) (lfu_nodes s'))"
proof -
  let ?s2 = "\<lambda>s1. s1\<lparr>lfu_nodes := node_set_freq node (node_freq (lfu_nodes s1 ! node) + 1) (lfu_nodes s1)\<rparr>"
  from assms(1) obtain s1 s3 s4 where
    r: "lfu_removeFromFreqList (Some node) s = Inr s1" and
    a: "lfu_addToFreqList (Some node) (?s2 s1) = Inr s3" and
    m: "(if node_freq (lfu_nodes s3 ! node) = lfu_minFreq s3 + 1
         then bind_err (lfu_freqlist_at (lfu_minFreq s3) s3) (\<lambda>fl.
              bind_err (Freqlist_isEmpty fl (lfu_nodes s3)) (\<lambda>empty.
                Inr (if empty then s3\<lparr>lfu_minFreq := lfu_minFreq s3 + 1\<rparr> else s3)))
         else Inr s3) = Inr s4" and
    f: "lfu_addFreqNum_in walk s4 = Inr s'"
    by (auto simp: lfu_getInternal_in_def Let_def bind_err_Inr)
  note fr = lfu_removeFromFreqList_frame [OF r]
  note fa = lfu_addToFreqList_frame [OF a]
  have ok1: "freq_ok (lfu_nodes s1)"
    using assms(2) fr by (auto intro: freq_ok_same)
  have f1: "freqs (lfu_nodes s1) = freqs (lfu_nodes s)" using fr by simp
  have f2: "freqs (lfu_nodes (?s2 s1)) = (freqs (lfu_nodes s1))[node := node_freq (lfu_nodes s1 ! node) + 1]"
    by (simp add: freqs_set_freq)
  have nf: "node < length (lfu_nodes s1) \<Longrightarrow> node_freq (lfu_nodes s1 ! node) = freqs (lfu_nodes s1) ! node"
    by (simp add: freqs_def)
  have ok2: "freq_ok (lfu_nodes (?s2 s1))"
  proof (cases "node < length (lfu_nodes s1)")
    case True
    then have "1 \<le> node_freq (lfu_nodes s1 ! node)" using ok1 by (simp add: freq_ok_def)
    then show ?thesis using ok1 f2 by (auto intro: freq_ok_update)
  next
    case False
    then have "freqs (lfu_nodes (?s2 s1)) = freqs (lfu_nodes s1)"
      using f2 by (simp add: length_freqs list_update_beyond)
    then show ?thesis using ok1 by (auto intro: freq_ok_same)
  qed
  have m2: "freq_mono (lfu_nodes s1) (lfu_nodes (?s2 s1))"
    using f2 by (rule freq_mono_update) (simp add: nf)
  from fa obtain zs where zs: "freqs (lfu_nodes s3) = freqs (lfu_nodes (?s2 s1)) @ zs" "\<forall>z \<in> set zs. z = 1"
    by blast
  have ok3: "freq_ok (lfu_nodes s3)" using ok2 zs by (rule freq_ok_append)
  have m3: "freq_mono (lfu_nodes s) (lfu_nodes s3)"
    using freq_mono_refl [OF f1] m2 freq_mono_append [OF zs(1)] by (blast intro: freq_mono_trans)
  have e4: "\<exists>mf. s4 = s3\<lparr>lfu_minFreq := mf\<rparr>"
    using m by (auto simp: bind_err_Inr split: if_splits intro: exI [of _ "lfu_minFreq s3"])
  then have n4: "lfu_nodes s4 = lfu_nodes s3" by auto
  have fr13: "lfu_frame s s3"
    using fr fa lfu_frame_nodes [of s1] by (blast intro: lfu_frame_trans)
  have same4: "lfu_nodeMap s4 = lfu_nodeMap s" "lfu_maxAverageNum s4 = lfu_maxAverageNum s"
    "lfu_capacity s4 = lfu_capacity s" "lfu_curTotalNum s4 = lfu_curTotalNum s"
    using e4 lfu_frame_fields [OF fr13] by auto
  note av = lfu_average_counters [OF same4(1,4)]
  from lfu_addFreqNum_in_frame [OF f] ok3 n4 have af:
    "freq_ok (lfu_nodes s')" "length (lfu_nodes s4) \<le> length (lfu_nodes s')"
    "lfu_nodeMap s' = lfu_nodeMap s4" "lfu_maxAverageNum s' = lfu_maxAverageNum s4"
    "lfu_capacity s' = lfu_capacity s4" "lfu_curTotalNum s' = lfu_curTotalNum s4 + 1"
    "lfu_curAverageNum s' = lfu_average (s4\<lparr>lfu_curTotalNum := lfu_curTotalNum s4 + 1\<rparr>)"
    "\<not> lfu_average (s4\<lparr>lfu_curTotalNum := lfu_curTotalNum s4 + 1\<rparr>) > lfu_maxAverageNum s4 \<longrightarrow>
       lfu_nodes s' = lfu_nodes s4"
    by simp_all
  have "length (lfu_nodes s) \<le> length (lfu_nodes s3)" using m3 by (simp add: freq_mono_def)
  then show ?thesis
    using af same4 n4 m3 av by auto
qed

text \<open>
  With the entries walked in the order of the list, the functions are those of the
  first family.
\<close>

lemma lfu_addFreqNum_in_nodeMap:
  "walk = lfu_nodeMap s \<Longrightarrow> lfu_addFreqNum_in walk s = lfu_addFreqNum s"
  by (simp add: lfu_addFreqNum_in_def lfu_addFreqNum_def lfu_handleOverMaxAverageNum_in_def
      lfu_handleOverMaxAverageNum_def Let_def)

lemma lfu_getInternal_in_nodeMap:
  "lfu_getInternal_in (lfu_nodeMap s) node (s :: ('k, 'v) MyLfuCache) = lfu_getInternal node s"
  unfolding lfu_getInternal_in_def lfu_getInternal_def Let_def
proof (intro bind_err_cong_Inr)
  fix s1 s3 s4 :: "('k, 'v) MyLfuCache"
  let ?s2 = "s1\<lparr>lfu_nodes := node_set_freq node (node_freq (lfu_nodes s1 ! node) + 1) (lfu_nodes s1)\<rparr>"
  assume r: "lfu_removeFromFreqList (Some node) s = Inr s1"
    and a: "lfu_addToFreqList (Some node) ?s2 = Inr s3"
    and m: "(if node_freq (lfu_nodes s3 ! node) = lfu_minFreq s3 + 1
         then bind_err (lfu_freqlist_at (lfu_minFreq s3) s3) (\<lambda>fl.
              bind_err (Freqlist_isEmpty fl (lfu_nodes s3)) (\<lambda>empty.
                Inr (if empty then s3\<lparr>lfu_minFreq := lfu_minFreq s3 + 1\<rparr> else s3)))
         else Inr s3) = Inr s4"
  have "lfu_frame s s3"
    using lfu_removeFromFreqList_frame [OF r] lfu_addToFreqList_frame [OF a] lfu_frame_nodes [of s1]
    by (blast intro: lfu_frame_trans)
  moreover have "\<exists>mf. s4 = s3\<lparr>lfu_minFreq := mf\<rparr>"
    using m by (auto simp: bind_err_Inr split: if_splits intro: exI [of _ "lfu_minFreq s3"])
  ultimately have "lfu_nodeMap s = lfu_nodeMap s4"
    by (auto simp: lfu_frame_fields)
  then show "lfu_addFreqNum_in (lfu_nodeMap s) s4 = lfu_addFreqNum s4"
    by (rule lfu_addFreqNum_in_nodeMap)
qed

lemma lfu_getInternal_frame:
  assumes "lfu_getInternal node s = Inr s'" "freq_ok (lfu_nodes s)"
  shows "freq_ok (lfu_nodes s') \<and> length (lfu_nodes s) \<le> length (lfu_nodes s') \<and>
         lfu_nodeMap s' = lfu_nodeMap s \<and> lfu_maxAverageNum s' = lfu_maxAverageNum s \<and>
         lfu_capacity s' = lfu_capacity s \<and> lfu_curTotalNum s' = lfu_curTotalNum s + 1 \<and>
         (lfu_curAverageNum s' \<le> lfu_maxAverageNum s' \<longrightarrow> freq_mono (lfu_nodes s) (lfu_nodes s'))"
proof -
  from assms(1) have "lfu_getInternal_in (lfu_nodeMap s) node s = Inr s'"
    by (simp add: lfu_getInternal_in_nodeMap)
  from lfu_getInternal_in_frame [OF this assms(2)] show ?thesis by simp
qed


lemma lfu_kickOut_frame:
  assumes "lfu_kickOut s = Inr s'"
  shows "freqs (lfu_nodes s') = freqs (lfu_nodes s) \<and>
         (\<exists>k0. lfu_nodeMap s' = AList.delete k0 (lfu_nodeMap s)) \<and>
         lfu_maxAverageNum s' = lfu_maxAverageNum s \<and> lfu_capacity s' = lfu_capacity s"
proof -
  from assms obtain n s2 where
    r: "lfu_removeFromFreqList (Some n) (s\<lparr>lfu_nodeMap := AList.delete (node_key (lfu_nodes s ! n)) (lfu_nodeMap s)\<rparr>) = Inr s2"
    and e: "s' = lfu_decreaseFreqNum (node_freq (lfu_nodes s2 ! n)) s2"
    by (auto simp: lfu_kickOut_def Let_def bind_err_Inr split: option.splits)
  from lfu_removeFromFreqList_frame [OF r] e show ?thesis
    by (auto simp: lfu_decreaseFreqNum_def Let_def lfu_frame_fields)
qed

lemma lfu_putInternal_frame:
  assumes "lfu_putInternal key value s = Inr s'" "lfu_wf s" "map_of (lfu_nodeMap s) key = None"
  shows "lfu_wf s' \<and> freq_mono (lfu_nodes s) (lfu_nodes s') \<and>
         (\<forall>k a a'. map_of (lfu_nodeMap s) k = Some a \<longrightarrow> map_of (lfu_nodeMap s') k = Some a' \<longrightarrow> a' = a)"
proof -
  let ?node = "length (lfu_nodes s)"
  let ?s1 = "s\<lparr>lfu_nodes := lfu_nodes s @ [Node key value]\<rparr>"
  from assms(1) obtain s2 where
    k: "(if int (length (lfu_nodeMap ?s1)) \<ge> to_size_t (lfu_capacity ?s1) then lfu_kickOut ?s1 else Inr ?s1) = Inr s2"
    and a: "lfu_addToFreqList (Some ?node) (s2\<lparr>lfu_nodeMap := AList.update key ?node (lfu_nodeMap s2)\<rparr>) = Inr s'"
    by (auto simp: lfu_putInternal_def Let_def bind_err_Inr)
  have f1: "freqs (lfu_nodes ?s1) = freqs (lfu_nodes s) @ [1]"
    by (simp add: freqs_def Node_def)
  have k2: "freqs (lfu_nodes s2) = freqs (lfu_nodes ?s1) \<and>
            (lfu_nodeMap s2 = lfu_nodeMap s \<or> (\<exists>k0. lfu_nodeMap s2 = AList.delete k0 (lfu_nodeMap s)))"
    using k lfu_kickOut_frame [of ?s1 s2] by (auto split: if_splits)
  from lfu_addToFreqList_frame [OF a] obtain zs where
    fa: "lfu_frame (s2\<lparr>lfu_nodeMap := AList.update key ?node (lfu_nodeMap s2)\<rparr>) s'"
    and zs: "freqs (lfu_nodes s') = freqs (lfu_nodes s2) @ zs" "\<forall>z \<in> set zs. z = 1"
    by auto
  have fs: "freqs (lfu_nodes s') = freqs (lfu_nodes s) @ (1 # zs)"
    using zs(1) k2 f1 by simp
  have ok: "freq_ok (lfu_nodes s')"
    using assms(2) fs zs(2) by (auto simp: lfu_wf_def freq_ok_freqs)
  have mono: "freq_mono (lfu_nodes s) (lfu_nodes s')"
    using fs by (rule freq_mono_append)
  have nm: "lfu_nodeMap s' = AList.update key ?node (lfu_nodeMap s2)"
    using lfu_frame_fields(1) [OF fa] by simp
  have sub: "\<And>k a. map_of (lfu_nodeMap s2) k = Some a \<Longrightarrow> map_of (lfu_nodeMap s) k = Some a"
    using k2 by (auto simp: delete_conv' split: if_splits)
  have len: "length (lfu_nodes s') = Suc (length (lfu_nodes s)) + length zs"
    using arg_cong [OF fs, of length] by (simp add: length_freqs)
  have old_valid: "\<And>k a. map_of (lfu_nodeMap s2) k = Some a \<Longrightarrow> a < length (lfu_nodes s)"
    using assms(2) sub unfolding lfu_wf_def by blast
  have valid: "\<And>k a. map_of (lfu_nodeMap s') k = Some a \<Longrightarrow> a < length (lfu_nodes s')"
    using old_valid len by (fastforce simp: nm update_conv' split: if_splits)
  have stable: "\<And>k a a'. map_of (lfu_nodeMap s) k = Some a \<Longrightarrow> map_of (lfu_nodeMap s') k = Some a' \<Longrightarrow> a' = a"
    using assms(3) sub by (auto simp: nm update_conv' split: if_splits)
  show ?thesis
    using ok mono valid stable by (auto simp: lfu_wf_def)
qed

text \<open>
  The admission path never writes \<^verbatim>\<open>minFreq_\<close>: whenever a \<^verbatim>\<open>put\<close> of an absent key
  returns, \<^verbatim>\<open>minFreq_\<close> is what it was before the call.
\<close>

lemma lfu_kickOut_minFreq:
  assumes "lfu_kickOut s = Inr s'"
  shows "lfu_minFreq s' = lfu_minFreq s"
proof -
  from assms obtain n s2 where
    r: "lfu_removeFromFreqList (Some n) (s\<lparr>lfu_nodeMap := AList.delete (node_key (lfu_nodes s ! n)) (lfu_nodeMap s)\<rparr>) = Inr s2"
    and e: "s' = lfu_decreaseFreqNum (node_freq (lfu_nodes s2 ! n)) s2"
    by (auto simp: lfu_kickOut_def Let_def bind_err_Inr split: option.splits)
  from lfu_removeFromFreqList_frame [OF r] e show ?thesis
    by (auto simp: lfu_decreaseFreqNum_def Let_def lfu_frame_fields)
qed

lemma lfu_putInternal_keeps_minFreq:
  assumes "lfu_putInternal key v s = Inr s'"
  shows "lfu_minFreq s' = lfu_minFreq s"
proof -
  let ?node = "length (lfu_nodes s)"
  let ?s1 = "s\<lparr>lfu_nodes := lfu_nodes s @ [Node key v]\<rparr>"
  from assms obtain s2 where
    k: "(if int (length (lfu_nodeMap ?s1)) \<ge> to_size_t (lfu_capacity ?s1) then lfu_kickOut ?s1 else Inr ?s1) = Inr s2"
    and a: "lfu_addToFreqList (Some ?node) (s2\<lparr>lfu_nodeMap := AList.update key ?node (lfu_nodeMap s2)\<rparr>) = Inr s'"
    by (auto simp: lfu_putInternal_def Let_def bind_err_Inr)
  have "lfu_minFreq s2 = lfu_minFreq s"
    using k lfu_kickOut_minFreq [of ?s1 s2] by (auto split: if_splits)
  with lfu_frame_fields(2) [OF conjunct1 [OF lfu_addToFreqList_frame [OF a]]] show ?thesis
    by simp
qed

lemma lfu_put_absent_keeps_minFreq:
  assumes "lfu_put key v s = Inr s'" "map_of (lfu_nodeMap s) key = None"
  shows "lfu_minFreq s' = lfu_minFreq s"
  using assms lfu_putInternal_keeps_minFreq [of key v s s']
  by (auto simp: lfu_put_def split: if_splits)

lemma lfu_step_in_frame:
  assumes "lfu_step_in walk x s = Inr s'" "lfu_wf s"
  shows "lfu_wf s' \<and>
         (\<forall>k a a'. map_of (lfu_nodeMap s) k = Some a \<longrightarrow> map_of (lfu_nodeMap s') k = Some a' \<longrightarrow> a' = a) \<and>
         (\<not> lfu_rebalances x s \<longrightarrow> freq_mono (lfu_nodes s) (lfu_nodes s'))"
proof -
  have access: "lfu_wf t' \<and>
         (\<forall>k a a'. map_of (lfu_nodeMap t) k = Some a \<longrightarrow> map_of (lfu_nodeMap t') k = Some a' \<longrightarrow> a' = a) \<and>
         (\<not> lfu_average (s\<lparr>lfu_curTotalNum := lfu_curTotalNum s + 1\<rparr>) > lfu_maxAverageNum s \<longrightarrow>
            freq_mono (lfu_nodes s) (lfu_nodes t'))"
    if g: "lfu_getInternal_in walk node t = Inr t'" and t: "lfu_nodeMap t = lfu_nodeMap s"
      "freqs (lfu_nodes t) = freqs (lfu_nodes s)" "lfu_curTotalNum t = lfu_curTotalNum s"
      "lfu_maxAverageNum t = lfu_maxAverageNum s" for node t t'
  proof -
    have okt: "freq_ok (lfu_nodes t)"
      using assms(2) t(2) by (auto simp: lfu_wf_def intro: freq_ok_same)
    note gf = lfu_getInternal_in_frame [OF g okt]
    have "length (lfu_nodes t) = length (lfu_nodes s)"
      using arg_cong [OF t(2), of length] by (simp add: length_freqs)
    then have "lfu_wf t'"
      using gf assms(2) t(1) by (fastforce simp: lfu_wf_def)
    moreover have "freq_mono (lfu_nodes t) (lfu_nodes t') \<Longrightarrow> freq_mono (lfu_nodes s) (lfu_nodes t')"
      using freq_mono_refl [OF t(2)] by (blast intro: freq_mono_trans)
    ultimately show ?thesis using gf lfu_average_counters [OF t(1,3)] t(4) by auto
  qed
  show ?thesis
  proof (cases x)
    case (LfuPut key v)
    show ?thesis
    proof (cases "lfu_capacity s \<le> 0")
      case True
      with assms LfuPut show ?thesis by (simp add: lfu_put_in_def freq_mono_refl)
    next
      case False
      show ?thesis
      proof (cases "map_of (lfu_nodeMap s) key")
        case None
        with assms LfuPut False have "lfu_putInternal key v s = Inr s'"
          by (simp add: lfu_put_in_def)
        from lfu_putInternal_frame [OF this assms(2) None] show ?thesis by blast
      next
        case (Some node)
        with assms LfuPut False have
          "lfu_getInternal_in walk node (s\<lparr>lfu_nodes := node_set_value node v (lfu_nodes s)\<rparr>) = Inr s'"
          by (simp add: lfu_put_in_def)
        from access [OF this] LfuPut False Some show ?thesis
          by (simp add: freqs_set_value lfu_rebalances_def)
      qed
    qed
  next
    case (LfuGet key)
    show ?thesis
    proof (cases "map_of (lfu_nodeMap s) key")
      case None
      with assms LfuGet show ?thesis by (simp add: lfu_get_ref_in_def bind_err_def freq_mono_refl)
    next
      case (Some node)
      with assms LfuGet have "lfu_getInternal_in walk node s = Inr s'"
        by (auto simp: lfu_get_ref_in_def bind_err_Inr)
      from access [OF this] LfuGet Some show ?thesis by (simp add: lfu_rebalances_def)
    qed
  next
    case LfuPurge
    with assms show ?thesis by (auto simp: lfu_purge_def lfu_wf_def freq_mono_refl)
  qed
qed

lemma lfu_wf_MyLfuCache: "lfu_wf (MyLfuCache dk dv t0 c m)"
  by (simp add: lfu_wf_def MyLfuCache_def freq_ok_def)

lemma lfu_reachable_wf: "lfu_reachable s \<Longrightarrow> lfu_wf s"
proof (induction rule: lfu_reachable.induct)
  case (lfu_reachable_init dk dv curTotalNum capacity maxAverageNum)
  show ?case by (rule lfu_wf_MyLfuCache)
next
  case (lfu_reachable_step s walk x s')
  from lfu_step_in_frame [OF lfu_reachable_step.hyps(4) lfu_reachable_step.IH] show ?case by simp
qed

text \<open>With the entries walked in the order of the list, a call is the call of the first family.\<close>

lemma lfu_step_in_nodeMap: "lfu_step_in (lfu_nodeMap s) x s = lfu_step x s"
proof (cases x)
  case (LfuPut key v)
  have "lfu_getInternal_in (lfu_nodeMap s) node (s\<lparr>lfu_nodes := h\<rparr>) = lfu_getInternal node (s\<lparr>lfu_nodes := h\<rparr>)"
    for node h
    using lfu_getInternal_in_nodeMap [of "s\<lparr>lfu_nodes := h\<rparr>" node] by simp
  with LfuPut show ?thesis by (simp add: lfu_put_in_def lfu_put_def split: option.splits)
next
  case (LfuGet key)
  then show ?thesis
    by (simp add: lfu_get_ref_in_def lfu_get_ref_def lfu_getInternal_in_nodeMap split: option.splits)
next
  case LfuPurge
  then show ?thesis by simp
qed

text \<open>
  A call that does not run the rebalance does not look at the order of the walk.
\<close>

lemma lfu_addFreqNum_in_no_rebalance:
  "\<not> lfu_average (s\<lparr>lfu_curTotalNum := lfu_curTotalNum s + 1\<rparr>) > lfu_maxAverageNum s \<Longrightarrow>
     lfu_addFreqNum_in walk s = lfu_addFreqNum_in walk' s"
  by (simp add: lfu_addFreqNum_in_def Let_def)

lemma lfu_getInternal_in_no_rebalance:
  assumes "\<not> lfu_average (s\<lparr>lfu_curTotalNum := lfu_curTotalNum s + 1\<rparr>) > lfu_maxAverageNum s"
  shows "lfu_getInternal_in walk node (s :: ('k, 'v) MyLfuCache) = lfu_getInternal_in walk' node s"
  unfolding lfu_getInternal_in_def Let_def
proof (intro bind_err_cong_Inr)
  fix s1 s3 s4 :: "('k, 'v) MyLfuCache"
  let ?s2 = "s1\<lparr>lfu_nodes := node_set_freq node (node_freq (lfu_nodes s1 ! node) + 1) (lfu_nodes s1)\<rparr>"
  assume r: "lfu_removeFromFreqList (Some node) s = Inr s1"
    and a: "lfu_addToFreqList (Some node) ?s2 = Inr s3"
    and m: "(if node_freq (lfu_nodes s3 ! node) = lfu_minFreq s3 + 1
         then bind_err (lfu_freqlist_at (lfu_minFreq s3) s3) (\<lambda>fl.
              bind_err (Freqlist_isEmpty fl (lfu_nodes s3)) (\<lambda>empty.
                Inr (if empty then s3\<lparr>lfu_minFreq := lfu_minFreq s3 + 1\<rparr> else s3)))
         else Inr s3) = Inr s4"
  have "lfu_frame s s3"
    using lfu_removeFromFreqList_frame [OF r] lfu_addToFreqList_frame [OF a] lfu_frame_nodes [of s1]
    by (blast intro: lfu_frame_trans)
  moreover have "\<exists>mf. s4 = s3\<lparr>lfu_minFreq := mf\<rparr>"
    using m by (auto simp: bind_err_Inr split: if_splits intro: exI [of _ "lfu_minFreq s3"])
  ultimately have e: "lfu_nodeMap s4 = lfu_nodeMap s" "lfu_curTotalNum s4 = lfu_curTotalNum s"
    "lfu_maxAverageNum s4 = lfu_maxAverageNum s"
    by (auto simp: lfu_frame_fields)
  from assms lfu_average_counters [OF e(1,2)] e(3)
  have "\<not> lfu_average (s4\<lparr>lfu_curTotalNum := lfu_curTotalNum s4 + 1\<rparr>) > lfu_maxAverageNum s4"
    by simp
  then show "lfu_addFreqNum_in walk s4 = lfu_addFreqNum_in walk' s4"
    by (rule lfu_addFreqNum_in_no_rebalance)
qed

lemma lfu_step_in_no_rebalance:
  assumes "\<not> lfu_rebalances x s"
  shows "lfu_step_in walk x s = lfu_step_in walk' x s"
proof (cases x)
  case (LfuPut key v)
  show ?thesis
  proof (cases "0 < lfu_capacity s \<and> map_of (lfu_nodeMap s) key \<noteq> None")
    case True
    then obtain node where n: "map_of (lfu_nodeMap s) key = Some node" by auto
    let ?t = "s\<lparr>lfu_nodes := node_set_value node v (lfu_nodes s)\<rparr>"
    from assms LfuPut True
    have "\<not> lfu_average (s\<lparr>lfu_curTotalNum := lfu_curTotalNum s + 1\<rparr>) > lfu_maxAverageNum s"
      by (simp add: lfu_rebalances_def)
    moreover have "lfu_average (?t\<lparr>lfu_curTotalNum := lfu_curTotalNum ?t + 1\<rparr>)
        = lfu_average (s\<lparr>lfu_curTotalNum := lfu_curTotalNum s + 1\<rparr>)"
      by (rule lfu_average_counters) simp_all
    ultimately
    have "\<not> lfu_average (?t\<lparr>lfu_curTotalNum := lfu_curTotalNum ?t + 1\<rparr>) > lfu_maxAverageNum ?t"
      by simp
    from lfu_getInternal_in_no_rebalance [OF this, of walk node walk'] LfuPut True n show ?thesis
      by (simp add: lfu_put_in_def)
  next
    case False
    with LfuPut show ?thesis by (auto simp: lfu_put_in_def split: option.splits)
  qed
next
  case (LfuGet key)
  show ?thesis
  proof (cases "map_of (lfu_nodeMap s) key")
    case None
    with LfuGet show ?thesis by (simp add: lfu_get_ref_in_def)
  next
    case (Some node)
    with assms LfuGet
    have "\<not> lfu_average (s\<lparr>lfu_curTotalNum := lfu_curTotalNum s + 1\<rparr>) > lfu_maxAverageNum s"
      by (simp add: lfu_rebalances_def)
    from lfu_getInternal_in_no_rebalance [OF this, of walk node walk'] LfuGet Some show ?thesis
      by (simp add: lfu_get_ref_in_def)
  qed
next
  case LfuPurge
  then show ?thesis by simp
qed

text \<open>
  A call of which \<open>lfu_rebalances\<close> holds ends in \<^verbatim>\<open>handleOverMaxAverageNum\<close>: what
  it returns is what the rebalance returns.
\<close>

lemma lfu_getInternal_in_rebalance:
  assumes "lfu_getInternal_in walk node s = Inr s'"
    and "lfu_average (s\<lparr>lfu_curTotalNum := lfu_curTotalNum s + 1\<rparr>) > lfu_maxAverageNum s"
  shows "\<exists>t. lfu_handleOverMaxAverageNum_in walk t = Inr s'"
proof -
  let ?s2 = "\<lambda>s1. s1\<lparr>lfu_nodes := node_set_freq node (node_freq (lfu_nodes s1 ! node) + 1) (lfu_nodes s1)\<rparr>"
  from assms(1) obtain s1 s3 s4 where
    r: "lfu_removeFromFreqList (Some node) s = Inr s1" and
    a: "lfu_addToFreqList (Some node) (?s2 s1) = Inr s3" and
    m: "(if node_freq (lfu_nodes s3 ! node) = lfu_minFreq s3 + 1
         then bind_err (lfu_freqlist_at (lfu_minFreq s3) s3) (\<lambda>fl.
              bind_err (Freqlist_isEmpty fl (lfu_nodes s3)) (\<lambda>empty.
                Inr (if empty then s3\<lparr>lfu_minFreq := lfu_minFreq s3 + 1\<rparr> else s3)))
         else Inr s3) = Inr s4" and
    f: "lfu_addFreqNum_in walk s4 = Inr s'"
    by (auto simp: lfu_getInternal_in_def Let_def bind_err_Inr)
  have "lfu_frame s s3"
    using lfu_removeFromFreqList_frame [OF r] lfu_addToFreqList_frame [OF a] lfu_frame_nodes [of s1]
    by (blast intro: lfu_frame_trans)
  moreover have "\<exists>mf. s4 = s3\<lparr>lfu_minFreq := mf\<rparr>"
    using m by (auto simp: bind_err_Inr split: if_splits intro: exI [of _ "lfu_minFreq s3"])
  ultimately have e: "lfu_nodeMap s4 = lfu_nodeMap s" "lfu_curTotalNum s4 = lfu_curTotalNum s"
    "lfu_maxAverageNum s4 = lfu_maxAverageNum s"
    by (auto simp: lfu_frame_fields)
  from assms(2) lfu_average_counters [OF e(1,2)] e(3)
  have "lfu_average (s4\<lparr>lfu_curTotalNum := lfu_curTotalNum s4 + 1\<rparr>) > lfu_maxAverageNum s4"
    by simp
  with f show ?thesis
    by (auto simp: lfu_addFreqNum_in_def Let_def)
qed

lemma lfu_step_in_rebalance:
  assumes "lfu_step_in walk x s = Inr s'" "lfu_rebalances x s"
  shows "\<exists>t. lfu_handleOverMaxAverageNum_in walk t = Inr s'"
proof (cases x)
  case (LfuPut key v)
  with assms(2) obtain node where n: "0 < lfu_capacity s" "map_of (lfu_nodeMap s) key = Some node"
    and av: "lfu_average (s\<lparr>lfu_curTotalNum := lfu_curTotalNum s + 1\<rparr>) > lfu_maxAverageNum s"
    by (auto simp: lfu_rebalances_def)
  let ?t = "s\<lparr>lfu_nodes := node_set_value node v (lfu_nodes s)\<rparr>"
  from assms(1) LfuPut n have g: "lfu_getInternal_in walk node ?t = Inr s'"
    by (simp add: lfu_put_in_def)
  have "lfu_average (?t\<lparr>lfu_curTotalNum := lfu_curTotalNum ?t + 1\<rparr>)
        = lfu_average (s\<lparr>lfu_curTotalNum := lfu_curTotalNum s + 1\<rparr>)"
    by (rule lfu_average_counters) simp_all
  with av have "lfu_average (?t\<lparr>lfu_curTotalNum := lfu_curTotalNum ?t + 1\<rparr>) > lfu_maxAverageNum ?t"
    by simp
  from lfu_getInternal_in_rebalance [OF g this] show ?thesis .
next
  case (LfuGet key)
  with assms(2) obtain node where n: "map_of (lfu_nodeMap s) key = Some node"
    and av: "lfu_average (s\<lparr>lfu_curTotalNum := lfu_curTotalNum s + 1\<rparr>) > lfu_maxAverageNum s"
    by (auto simp: lfu_rebalances_def)
  from assms(1) LfuGet n have "lfu_getInternal_in walk node s = Inr s'"
    by (auto simp: lfu_get_ref_in_def bind_err_Inr)
  from lfu_getInternal_in_rebalance [OF this av] show ?thesis .
next
  case LfuPurge
  with assms(2) show ?thesis by (simp add: lfu_rebalances_def)
qed

text \<open>
  C8. Take any state \<open>s\<close> that calls of \<^verbatim>\<open>put\<close>, \<^verbatim>\<open>get\<close> and \<^verbatim>\<open>purge\<close> reach from a
  constructed LFU engine, whatever the order of the walks, and one more call leading to
  \<open>s'\<close>. A key resident before and after the call keeps its node; the frequency stored
  in the node is at least 1 before and after; and if the frequency after the call is
  lower than before, the call has run the rebalance: it is a \<^verbatim>\<open>put\<close> or a \<^verbatim>\<open>get\<close> that
  found its key, and the average that \<^verbatim>\<open>addFreqNum\<close> computed exceeded
  \<^verbatim>\<open>maxAverageNum_\<close>. A \<^verbatim>\<open>put\<close> of a new key, a miss and a call that finds the average
  at or below the ceiling lower no frequency. \<^verbatim>\<open>int\<close> is unbounded here.
\<close>

theorem lfu_frequency_monotone:
  assumes "lfu_reachable s"
    and "distinct walk" and "set walk = set (lfu_nodeMap s)"
    and "lfu_step_in walk x s = Inr s'"
    and "map_of (lfu_nodeMap s) key = Some node"
    and "map_of (lfu_nodeMap s') key = Some node'"
  shows "node' = node \<and> 1 \<le> node_freq (lfu_nodes s ! node) \<and> 1 \<le> node_freq (lfu_nodes s' ! node) \<and>
         (node_freq (lfu_nodes s' ! node) < node_freq (lfu_nodes s ! node) \<longrightarrow> lfu_rebalances x s)"
proof -
  have wf: "lfu_wf s"
    using assms(1) by (rule lfu_reachable_wf)
  note st = lfu_step_in_frame [OF assms(4) wf]
  have eq: "node' = node" using st assms(5,6) by blast
  have v: "node < length (lfu_nodes s)" using wf assms(5) by (auto simp: lfu_wf_def)
  have v': "node < length (lfu_nodes s')" using st assms(6) eq by (auto simp: lfu_wf_def)
  have "1 \<le> node_freq (lfu_nodes s ! node)" using wf v by (auto simp: lfu_wf_def freq_ok_def)
  moreover have "1 \<le> node_freq (lfu_nodes s' ! node)" using st v' by (auto simp: lfu_wf_def freq_ok_def)
  moreover have "lfu_rebalances x s"
    if "node_freq (lfu_nodes s' ! node) < node_freq (lfu_nodes s ! node)"
  proof (rule ccontr)
    assume "\<not> lfu_rebalances x s"
    then have "freq_mono (lfu_nodes s) (lfu_nodes s')" using st by simp
    then have "node_freq (lfu_nodes s ! node) \<le> node_freq (lfu_nodes s' ! node)"
      using v by (simp add: freq_mono_def)
    with that show False by simp
  qed
  ultimately show ?thesis using eq by blast
qed

theorem lfu_frequency_monotone_witness:
  "lfu_step_in [] (LfuPut ''b'' ''B'') (MyLfuCache [] [] 0 2 10) = Inr lfu_example
   \<and> lfu_reachable lfu_example
   \<and> distinct [(''b'', 0::nat)]
   \<and> set [(''b'', 0)] = set (lfu_nodeMap lfu_example)
   \<and> lfu_step_in [(''b'', 0)] (LfuGet ''b'') lfu_example = Inr lfu_example_get
   \<and> map_of (lfu_nodeMap lfu_example) ''b'' = Some 0
   \<and> map_of (lfu_nodeMap lfu_example_get) ''b'' = Some 0
   \<and> 1 \<le> node_freq (lfu_nodes lfu_example ! 0)
   \<and> 1 \<le> node_freq (lfu_nodes lfu_example_get ! 0)
   \<and> (node_freq (lfu_nodes lfu_example ! 0) \<le> node_freq (lfu_nodes lfu_example_get ! 0) \<or>
        lfu_rebalances (LfuGet ''b'') lfu_example)"
proof -
  have p: "lfu_step_in [] (LfuPut ''b'' ''B'') (MyLfuCache [] [] 0 2 10) = Inr lfu_example"
    by code_simp
  have r: "lfu_reachable lfu_example"
    by (rule lfu_reachable_step [OF lfu_reachable_init _ _ p]) (simp_all add: MyLfuCache_def)
  have d: "distinct [(''b'', 0::nat)]" by simp
  have w: "set [(''b'', 0)] = set (lfu_nodeMap lfu_example)"
    by (simp add: lfu_example_def)
  have g: "lfu_step_in [(''b'', 0)] (LfuGet ''b'') lfu_example = Inr lfu_example_get"
    by code_simp
  have m: "map_of (lfu_nodeMap lfu_example) ''b'' = Some 0"
    by (simp add: lfu_example_def)
  have m': "map_of (lfu_nodeMap lfu_example_get) ''b'' = Some 0"
    by (simp add: lfu_example_get_def)
  note t = lfu_frequency_monotone [OF r d w g m m']
  from t have "node_freq (lfu_nodes lfu_example ! 0) \<le> node_freq (lfu_nodes lfu_example_get ! 0) \<or>
        lfu_rebalances (LfuGet ''b'') lfu_example"
    by linarith
  with t p r d w g m m' show ?thesis
    by blast
qed


section \<open>Routing in the sharded cache\<close>

lemma hash_put_shape:
  assumes "hash_put Hash key v s = Inr t"
  shows "\<exists>i c. hash_sliceIndex Hash key s = Inr i \<and> i < length (hash_lruSliceCaches s) \<and>
           klru_put key v (hash_lruSliceCaches s ! i) = Inr c \<and>
           t = s\<lparr>hash_lruSliceCaches := (hash_lruSliceCaches s)[i := c]\<rparr>"
  using assms by (auto simp: hash_put_def bind_err_Inr split: if_splits)

lemma hash_get_ref_shape:
  assumes "hash_get_ref Hash key v s = Inr (found, w, t)"
  shows "\<exists>i b. hash_sliceIndex Hash key s = Inr i \<and> i < length (hash_lruSliceCaches s) \<and>
           lru_get_ref key v (klru_base (hash_lruSliceCaches s ! i)) = Inr (found, w, b) \<and>
           t = s\<lparr>hash_lruSliceCaches :=
                  (hash_lruSliceCaches s)[i := (hash_lruSliceCaches s ! i)\<lparr>klru_base := b\<rparr>]\<rparr>"
  using assms by (auto simp: hash_get_ref_def Let_def bind_err_Inr split: if_splits)

lemma hash_step_sliceNum:
  "hash_step Hash x s = Inr t \<Longrightarrow> hash_sliceNum t = hash_sliceNum s"
proof (cases x)
  case (HashPut key v)
  assume "hash_step Hash x s = Inr t"
  with HashPut have "hash_put Hash key v s = Inr t" by simp
  from hash_put_shape [OF this] show ?thesis by auto
next
  case (HashGet key)
  assume "hash_step Hash x s = Inr t"
  with HashGet obtain found w where "hash_get_ref Hash key [] s = Inr (found, w, t)"
    by (auto simp: bind_err_Inr)
  from hash_get_ref_shape [OF this] show ?thesis by auto
qed

lemma run_ops_hash_sliceNum:
  "run_ops (hash_step Hash) ops s = Inr t \<Longrightarrow> hash_sliceNum t = hash_sliceNum s"
proof (induction ops arbitrary: s)
  case Nil
  then show ?case by simp
next
  case (Cons x xs)
  then obtain s1 where "hash_step Hash x s = Inr s1" "run_ops (hash_step Hash) xs s1 = Inr t"
    by (auto simp: bind_err_Inr)
  with Cons.IH hash_step_sliceNum show ?case by fastforce
qed

lemma MyHashLru_shape:
  assumes "MyHashLru dk hw hc k capacity slice = Inr s0" "slice < 2 ^ 31"
  shows "hash_sliceNum s0 = (if 0 < slice then slice else to_int32 (int hw))"
    and "hash_sliceNum s0 \<noteq> 0" and "hash_sliceNum s0 < 2 ^ 31"
    and "length (hash_lruSliceCaches s0) = nat (hash_sliceNum s0)"
  using assms by (auto simp: MyHashLru_def Let_def to_int32_def split: if_splits)

lemma hash_step_length:
  "hash_step Hash x s = Inr t \<Longrightarrow> length (hash_lruSliceCaches t) = length (hash_lruSliceCaches s)"
proof (cases x)
  case (HashPut key v)
  assume "hash_step Hash x s = Inr t"
  with HashPut have "hash_put Hash key v s = Inr t" by simp
  from hash_put_shape [OF this] show ?thesis by auto
next
  case (HashGet key)
  assume "hash_step Hash x s = Inr t"
  with HashGet obtain found w where "hash_get_ref Hash key [] s = Inr (found, w, t)"
    by (auto simp: bind_err_Inr)
  from hash_get_ref_shape [OF this] show ?thesis by auto
qed

lemma run_ops_hash_length:
  "run_ops (hash_step Hash) ops s = Inr t \<Longrightarrow> length (hash_lruSliceCaches t) = length (hash_lruSliceCaches s)"
proof (induction ops arbitrary: s)
  case Nil
  then show ?case by simp
next
  case (Cons x xs)
  then obtain s1 where "hash_step Hash x s = Inr s1" "run_ops (hash_step Hash) xs s1 = Inr t"
    by (auto simp: bind_err_Inr)
  with Cons.IH hash_step_length show ?case by fastforce
qed

lemma hash_sliceIndex_mod:
  assumes "0 < hash_sliceNum s" "hash_sliceNum s < 2 ^ 31" "Hash key < 2 ^ 64"
  shows "hash_sliceIndex Hash key s = Inr (Hash key mod nat (hash_sliceNum s))"
proof -
  have n: "to_size_t (hash_sliceNum s) = hash_sliceNum s"
    using assms(1,2) by (simp add: to_size_t_def)
  have h: "to_size_t (int (Hash key)) = int (Hash key)"
    using assms(3) by (simp add: to_size_t_def)
  have "nat (int (Hash key) mod hash_sliceNum s) = Hash key mod nat (hash_sliceNum s)"
    using assms(1) by (simp add: nat_mod_distrib)
  with n h assms(1) show ?thesis by (simp add: hash_sliceIndex_def)
qed

text \<open>
  C9. Take a sharded cache constructed with a shard count \<open>n\<close> above 0 (the \<^verbatim>\<open>slice\<close>
  argument if it is positive, the hardware concurrency otherwise), a state \<open>s\<close> that a
  sequence of \<^verbatim>\<open>put\<close> and \<^verbatim>\<open>get\<close> calls reaches from it, and a state \<open>t\<close> that a further
  sequence reaches from \<open>s\<close>. In both, \<^verbatim>\<open>sliceNum_\<close> is \<open>n\<close>, the vector holds \<open>n\<close>
  shards and the routing computation of a key yields \<open>Hash key mod n\<close>, an index inside
  the vector. A \<^verbatim>\<open>put\<close> is the \<^verbatim>\<open>put\<close> of the shard at that index with the same key
  and value: it fails when that call fails, and otherwise replaces that one shard by
  what the call returns. A two-argument \<^verbatim>\<open>get\<close>, later or not, is the two-argument
  \<^verbatim>\<open>get\<close> of the base cache of the shard at the same index, with the same key and
  reference parameter; its flag and value are handed back and that shard alone is
  replaced.
\<close>

theorem hash_routing_deterministic:
  assumes "MyHashLru dk hw hc k capacity slice = Inr s0"
    and "n = (if 0 < slice then nat slice else hw)"
    and "0 < n" and "slice < 2 ^ 31" and "hw < 2 ^ 31"
    and "run_ops (hash_step Hash) ops s0 = Inr s"
    and "run_ops (hash_step Hash) ops' s = Inr t"
    and "Hash key < 2 ^ 64"
  shows "hash_sliceNum s = int n \<and> hash_sliceNum t = int n
    \<and> length (hash_lruSliceCaches s) = n \<and> length (hash_lruSliceCaches t) = n
    \<and> hash_sliceIndex Hash key s = Inr (Hash key mod n)
    \<and> hash_sliceIndex Hash key t = Inr (Hash key mod n)
    \<and> Hash key mod n < n
    \<and> hash_put Hash key v s =
         bind_err (klru_put key v (hash_lruSliceCaches s ! (Hash key mod n))) (\<lambda>c.
           Inr (s\<lparr>hash_lruSliceCaches := (hash_lruSliceCaches s)[Hash key mod n := c]\<rparr>))
    \<and> hash_get_ref Hash key w t =
         bind_err (lru_get_ref key w (klru_base (hash_lruSliceCaches t ! (Hash key mod n))))
           (\<lambda>(found, x, b).
              Inr (found, x, t\<lparr>hash_lruSliceCaches := (hash_lruSliceCaches t)
                [Hash key mod n := (hash_lruSliceCaches t ! (Hash key mod n))\<lparr>klru_base := b\<rparr>]\<rparr>))"
proof -
  have hw: "to_int32 (int hw) = int hw"
    using assms(5) by (simp add: to_int32_def)
  note c = MyHashLru_shape [OF assms(1,4)]
  have n0: "hash_sliceNum s0 = int n"
    using c(1) assms(2,3) hw by (simp split: if_splits)
  have ns: "hash_sliceNum s = int n"
    using run_ops_hash_sliceNum [OF assms(6)] n0 by simp
  have nt: "hash_sliceNum t = int n"
    using run_ops_hash_sliceNum [OF assms(7)] ns by simp
  have ls: "length (hash_lruSliceCaches s) = n"
    using run_ops_hash_length [OF assms(6)] c(4) n0 by simp
  have lt: "length (hash_lruSliceCaches t) = n"
    using run_ops_hash_length [OF assms(7)] ls by simp
  have b: "int n < 2 ^ 31"
    using assms(2,4,5) by (simp split: if_splits)
  have "0 < hash_sliceNum s" "hash_sliceNum s < 2 ^ 31"
    using ns assms(3) b by simp_all
  from hash_sliceIndex_mod [of s Hash key, OF this assms(8)] ns
  have i1: "hash_sliceIndex Hash key s = Inr (Hash key mod n)" by simp
  have "0 < hash_sliceNum t" "hash_sliceNum t < 2 ^ 31"
    using nt assms(3) b by simp_all
  from hash_sliceIndex_mod [of t Hash key, OF this assms(8)] nt
  have i2: "hash_sliceIndex Hash key t = Inr (Hash key mod n)" by simp
  have r: "Hash key mod n < n" using assms(3) by simp
  have p: "hash_put Hash key v s =
         bind_err (klru_put key v (hash_lruSliceCaches s ! (Hash key mod n))) (\<lambda>c.
           Inr (s\<lparr>hash_lruSliceCaches := (hash_lruSliceCaches s)[Hash key mod n := c]\<rparr>))"
    using i1 r ls by (simp add: hash_put_def bind_err_def)
  have g: "hash_get_ref Hash key w t =
         bind_err (lru_get_ref key w (klru_base (hash_lruSliceCaches t ! (Hash key mod n))))
           (\<lambda>(found, x, b).
              Inr (found, x, t\<lparr>hash_lruSliceCaches := (hash_lruSliceCaches t)
                [Hash key mod n := (hash_lruSliceCaches t ! (Hash key mod n))\<lparr>klru_base := b\<rparr>]\<rparr>))"
    using i2 r lt by (simp add: hash_get_ref_def bind_err_def Let_def)
  from ns nt ls lt i1 i2 r p g show ?thesis by blast
qed

theorem hash_routing_deterministic_witness:
  "MyHashLru 0 8 2 2 4 2 = Inr hash_example
   \<and> run_ops (hash_step hash_id) [] hash_example = Inr hash_example
   \<and> run_ops (hash_step hash_id) [HashPut 5 ''v'', HashGet 5] hash_example = Inr hash_example_put
   \<and> hash_id 5 < 2 ^ 64
   \<and> hash_sliceNum hash_example = 2
   \<and> hash_sliceNum hash_example_put = 2
   \<and> length (hash_lruSliceCaches hash_example) = 2
   \<and> length (hash_lruSliceCaches hash_example_put) = 2
   \<and> hash_sliceIndex hash_id 5 hash_example = Inr 1
   \<and> hash_sliceIndex hash_id 5 hash_example_put = Inr 1
   \<and> hash_put hash_id 5 ''v'' hash_example =
        bind_err (klru_put 5 ''v'' (hash_lruSliceCaches hash_example ! 1)) (\<lambda>c.
          Inr (hash_example\<lparr>hash_lruSliceCaches := (hash_lruSliceCaches hash_example)[1 := c]\<rparr>))
   \<and> hash_put hash_id 5 ''v'' hash_example = Inr hash_example_put
   \<and> hash_get_ref hash_id 5 ''u'' hash_example_put =
        bind_err (lru_get_ref 5 ''u'' (klru_base (hash_lruSliceCaches hash_example_put ! 1)))
          (\<lambda>(found, x, b).
             Inr (found, x, hash_example_put\<lparr>hash_lruSliceCaches := (hash_lruSliceCaches hash_example_put)
               [1 := (hash_lruSliceCaches hash_example_put ! 1)\<lparr>klru_base := b\<rparr>]\<rparr>))
   \<and> hash_get_ref hash_id 5 ''u'' hash_example_put = Inr (False, ''u'', hash_example_put)"
proof -
  have e: "run_ops (hash_step hash_id) [] hash_example = Inr hash_example"
    by simp
  have h: "hash_id 5 < 2 ^ 64"
    by (simp add: hash_id_def)
  have m: "hash_id 5 mod 2 = 1"
    by (simp add: hash_id_def)
  have g: "hash_get_ref hash_id 5 ''u'' hash_example_put = Inr (False, ''u'', hash_example_put)"
    by code_simp
  note t = hash_routing_deterministic [OF hash_example_reached _ _ _ _ e hash_example_run h,
      of 2 "''v''" "''u''", unfolded m]
  have t': "hash_sliceNum hash_example = int 2 \<and> hash_sliceNum hash_example_put = int 2
    \<and> length (hash_lruSliceCaches hash_example) = 2 \<and> length (hash_lruSliceCaches hash_example_put) = 2
    \<and> hash_sliceIndex hash_id 5 hash_example = Inr 1
    \<and> hash_sliceIndex hash_id 5 hash_example_put = Inr 1
    \<and> (1::nat) < 2
    \<and> hash_put hash_id 5 ''v'' hash_example =
        bind_err (klru_put 5 ''v'' (hash_lruSliceCaches hash_example ! 1)) (\<lambda>c.
          Inr (hash_example\<lparr>hash_lruSliceCaches := (hash_lruSliceCaches hash_example)[1 := c]\<rparr>))
    \<and> hash_get_ref hash_id 5 ''u'' hash_example_put =
        bind_err (lru_get_ref 5 ''u'' (klru_base (hash_lruSliceCaches hash_example_put ! 1)))
          (\<lambda>(found, x, b).
             Inr (found, x, hash_example_put\<lparr>hash_lruSliceCaches := (hash_lruSliceCaches hash_example_put)
               [1 := (hash_lruSliceCaches hash_example_put ! 1)\<lparr>klru_base := b\<rparr>]\<rparr>))"
    by (rule t) simp_all
  from t' have n2: "hash_sliceNum hash_example = 2" "hash_sliceNum hash_example_put = 2"
    by simp_all
  from t' n2 hash_example_reached e hash_example_run h hash_example_put_reached g show ?thesis
    by blast
qed


section \<open>The promotion gate of the K-promotion wrapper\<close>

text \<open>
  The list surgery of the LRU engine changes links only, so the key-to-value view of a
  cache is followed through \<^verbatim>\<open>get\<close> (unchanged) and \<^verbatim>\<open>put\<close> (at most the key written is
  new, other keys keep their value or disappear).
\<close>

lemma lru_same_refl: "lru_same s s"
  by (simp add: lru_same_def)

lemma lru_same_trans: "lru_same s1 s2 \<Longrightarrow> lru_same s2 s3 \<Longrightarrow> lru_same s1 s3"
  by (simp add: lru_same_def)

lemma lru_same_set_prev: "lru_same s (lru_set_prev a p s)"
  by (simp add: lru_same_def lru_set_prev_def map_update_same)

lemma lru_same_set_next: "lru_same s (lru_set_next a p s)"
  by (simp add: lru_same_def lru_set_next_def map_update_same)

lemma lru_same_set_prev_iff: "lru_same s (lru_set_prev a p t) = lru_same s t"
  by (simp add: lru_same_def lru_set_prev_def map_update_same)

lemma lru_same_set_next_iff: "lru_same s (lru_set_next a p t) = lru_same s t"
  by (simp add: lru_same_def lru_set_next_def map_update_same)

lemma lru_removeNode_same: "lru_removeNode node s = Inr s' \<Longrightarrow> lru_same s s'"
  by (auto simp: lru_removeNode_def Let_def lru_same_set_prev_iff lru_same_set_next_iff lru_same_refl
      split: option.splits)

lemma lru_insertNode_same: "lru_insertNode node s = Inr s' \<Longrightarrow> lru_same s s'"
  by (auto simp: lru_insertNode_def Let_def lru_same_set_prev_iff lru_same_set_next_iff lru_same_refl
      split: option.splits)

lemma lru_moveToMostRecent_same:
  assumes "lru_moveToMostRecent node s = Inr s'"
  shows "lru_same s s'"
proof -
  from assms obtain s1 where "lru_removeNode node s = Inr s1" "lru_insertNode node s1 = Inr s'"
    by (auto simp: lru_moveToMostRecent_def bind_err_Inr)
  then show ?thesis
    using lru_removeNode_same lru_insertNode_same lru_same_trans by blast
qed

lemma lru_same_length: "lru_same s s' \<Longrightarrow> length (lru_nodes s') = length (lru_nodes s)"
  by (auto simp: lru_same_def dest: arg_cong [where f = length])

lemma lru_same_nth:
  assumes "lru_same s s'" "a < length (lru_nodes s)"
  shows "lru_key (lru_nodes s' ! a) = lru_key (lru_nodes s ! a)"
    and "lru_value (lru_nodes s' ! a) = lru_value (lru_nodes s ! a)"
proof -
  have l: "a < length (lru_nodes s')" using assms lru_same_length by fastforce
  have "map lru_key (lru_nodes s') ! a = map lru_key (lru_nodes s) ! a"
    "map lru_value (lru_nodes s') ! a = map lru_value (lru_nodes s) ! a"
    using assms(1) by (simp_all add: lru_same_def)
  then show "lru_key (lru_nodes s' ! a) = lru_key (lru_nodes s ! a)"
    and "lru_value (lru_nodes s' ! a) = lru_value (lru_nodes s ! a)"
    using l assms(2) by simp_all
qed

lemma lru_same_wf: "lru_same s s' \<Longrightarrow> lru_wf s \<Longrightarrow> lru_wf s'"
proof -
  assume a: "lru_same s s'" "lru_wf s"
  show "lru_wf s'"
    unfolding lru_wf_def
  proof (intro allI impI)
    fix key node
    assume "map_of (lru_nodeMap s') key = Some node"
    with a(1) have m: "map_of (lru_nodeMap s) key = Some node" by (simp add: lru_same_def)
    with a(2) have v: "node < length (lru_nodes s)" "lru_key (lru_nodes s ! node) = key"
      by (simp_all add: lru_wf_def)
    from v lru_same_length [OF a(1)] lru_same_nth(1) [OF a(1) v(1)]
    show "node < length (lru_nodes s') \<and> lru_key (lru_nodes s' ! node) = key" by simp
  qed
qed

lemma lru_same_view: "lru_same s s' \<Longrightarrow> lru_wf s \<Longrightarrow> lru_view s' = lru_view s"
proof (rule ext)
  fix key
  assume a: "lru_same s s'" "lru_wf s"
  show "lru_view s' key = lru_view s key"
  proof (cases "map_of (lru_nodeMap s) key")
    case None
    with a show ?thesis by (simp add: lru_view_def lru_same_def)
  next
    case (Some node)
    with a have "node < length (lru_nodes s)" by (simp add: lru_wf_def)
    with a Some lru_same_nth(2) [OF a(1) this] show ?thesis
      by (simp add: lru_view_def lru_same_def)
  qed
qed

lemma lru_get_ref_view:
  assumes "lru_get_ref key v s = Inr (found, w, s')" "lru_wf s"
  shows "lru_wf s' \<and> lru_view s' = lru_view s \<and> lru_capacity s' = lru_capacity s \<and>
         w = (case lru_view s key of None \<Rightarrow> v | Some x \<Rightarrow> x) \<and>
         (found \<longleftrightarrow> lru_view s key \<noteq> None)"
proof (cases "map_of (lru_nodeMap s) key")
  case None
  with assms show ?thesis by (simp add: lru_get_ref_def lru_view_def)
next
  case (Some node)
  with assms(1) have m: "lru_moveToMostRecent node s = Inr s'"
    and r: "w = lru_value (lru_nodes s' ! node)" "found"
    by (auto simp: lru_get_ref_def bind_err_Inr)
  note sm = lru_moveToMostRecent_same [OF m]
  have "node < length (lru_nodes s)" using Some assms(2) by (simp add: lru_wf_def)
  from lru_same_nth(2) [OF sm this] r Some lru_same_wf [OF sm assms(2)] lru_same_view [OF sm assms(2)] sm
  show ?thesis by (simp add: lru_view_def lru_same_def)
qed

lemma lru_get_view:
  assumes "lru_get dv key s = Inr (w, s')" "lru_wf s"
  shows "lru_wf s' \<and> lru_view s' = lru_view s \<and> lru_capacity s' = lru_capacity s \<and>
         w = (case lru_view s key of None \<Rightarrow> dv | Some x \<Rightarrow> x)"
proof -
  from assms(1) obtain found where "lru_get_ref key dv s = Inr (found, w, s')"
    by (auto simp: lru_get_def bind_err_Inr)
  from lru_get_ref_view [OF this assms(2)] show ?thesis by simp
qed


lemma lru_delete_view:
  assumes "lru_wf s"
  shows "lru_wf (s\<lparr>lru_nodeMap := AList.delete k0 (lru_nodeMap s)\<rparr>)"
    and "lru_view (s\<lparr>lru_nodeMap := AList.delete k0 (lru_nodeMap s)\<rparr>) k = Some x \<Longrightarrow> lru_view s k = Some x"
  using assms by (auto simp: lru_wf_def lru_view_def delete_conv' split: if_splits)

lemma lru_evictLeastRecent_view:
  assumes "lru_evictLeastRecent s = Inr s'" "lru_wf s"
  shows "lru_wf s' \<and> lru_capacity s' = lru_capacity s \<and>
         (\<forall>k x. lru_view s' k = Some x \<longrightarrow> lru_view s k = Some x)"
proof -
  from assms(1) obtain first s1 k0 where
    r: "lru_removeNode first s = Inr s1" and e: "s' = s1\<lparr>lru_nodeMap := AList.delete k0 (lru_nodeMap s1)\<rparr>"
    by (auto simp: lru_evictLeastRecent_def bind_err_Inr split: option.splits)
  note sm = lru_removeNode_same [OF r]
  note w1 = lru_same_wf [OF sm assms(2)]
  from lru_delete_view [OF w1] lru_same_view [OF sm assms(2)] sm e show ?thesis
    by (auto simp: lru_same_def)
qed

lemma lru_removeNode_key_view:
  assumes "lru_removeNode_key key s = Inr s'" "lru_wf s"
  shows "lru_wf s' \<and> lru_capacity s' = lru_capacity s \<and>
         (\<forall>k x. lru_view s' k = Some x \<longrightarrow> lru_view s k = Some x)"
proof (cases "map_of (lru_nodeMap s) key")
  case None
  with assms show ?thesis by (simp add: lru_removeNode_key_def)
next
  case (Some node)
  with assms(1) obtain s1 where
    r: "lru_removeNode node s = Inr s1" and e: "s' = s1\<lparr>lru_nodeMap := AList.delete key (lru_nodeMap s1)\<rparr>"
    by (auto simp: lru_removeNode_key_def bind_err_Inr)
  note sm = lru_removeNode_same [OF r]
  note w1 = lru_same_wf [OF sm assms(2)]
  from lru_delete_view [OF w1] lru_same_view [OF sm assms(2)] sm e show ?thesis
    by (auto simp: lru_same_def)
qed

lemma lru_updateExistNode_view:
  assumes "lru_updateExistNode node v s = Inr s'" "lru_wf s" "map_of (lru_nodeMap s) key = Some node"
  shows "lru_wf s' \<and> lru_capacity s' = lru_capacity s \<and> lru_view s' = (lru_view s)(key \<mapsto> v)"
proof -
  let ?t = "lru_setValue node v s"
  from assms(1) have m: "lru_moveToMostRecent node ?t = Inr s'"
    by (simp add: lru_updateExistNode_def)
  have v: "node < length (lru_nodes s)" "lru_key (lru_nodes s ! node) = key"
    using assms(2,3) by (simp_all add: lru_wf_def)
  have wt: "lru_wf ?t"
    unfolding lru_wf_def
  proof (intro allI impI)
    fix k a
    assume "map_of (lru_nodeMap ?t) k = Some a"
    then have "map_of (lru_nodeMap s) k = Some a" by (simp add: lru_setValue_def)
    with assms(2) have "a < length (lru_nodes s)" "lru_key (lru_nodes s ! a) = k"
      by (simp_all add: lru_wf_def)
    then show "a < length (lru_nodes ?t) \<and> lru_key (lru_nodes ?t ! a) = k"
      by (cases "a = node") (simp_all add: lru_setValue_def)
  qed
  have vt: "lru_view ?t = (lru_view s)(key \<mapsto> v)"
  proof (rule ext)
    fix k
    show "lru_view ?t k = ((lru_view s)(key \<mapsto> v)) k"
    proof (cases "map_of (lru_nodeMap s) k")
      case None
      with assms(3) show ?thesis by (auto simp: lru_view_def lru_setValue_def)
    next
      case (Some a)
      with assms(2) have a: "a < length (lru_nodes s)" "lru_key (lru_nodes s ! a) = k"
        by (simp_all add: lru_wf_def)
      show ?thesis
      proof (cases "k = key")
        case True
        with Some assms(3) v show ?thesis by (simp add: lru_view_def lru_setValue_def)
      next
        case False
        with a v have "a \<noteq> node" by auto
        with Some False show ?thesis by (simp add: lru_view_def lru_setValue_def)
      qed
    qed
  qed
  note sm = lru_moveToMostRecent_same [OF m]
  from lru_same_wf [OF sm wt] lru_same_view [OF sm wt] vt sm show ?thesis
    by (simp add: lru_same_def lru_setValue_def)
qed

lemma lru_addNode_view:
  assumes "lru_addNode key v s = Inr s'" "lru_wf s"
  shows "lru_wf s' \<and> lru_capacity s' = lru_capacity s \<and>
         (\<forall>k x. lru_view s' k = Some x \<longrightarrow> lru_view s k = Some x \<or> (k = key \<and> x = v))"
proof -
  let ?node = "length (lru_nodes s)"
  let ?s1 = "s\<lparr>lru_nodes := lru_nodes s @ [MyLruNode key v]\<rparr>"
  from assms(1) obtain s2 where
    i: "lru_insertNode ?node ?s1 = Inr s2" and
    e: "(if int (length (AList.update key ?node (lru_nodeMap s2))) > to_size_t (lru_capacity s2)
         then lru_evictLeastRecent (s2\<lparr>lru_nodeMap := AList.update key ?node (lru_nodeMap s2)\<rparr>)
         else Inr (s2\<lparr>lru_nodeMap := AList.update key ?node (lru_nodeMap s2)\<rparr>)) = Inr s'"
    by (auto simp: lru_addNode_def Let_def bind_err_Inr)
  let ?s3 = "s2\<lparr>lru_nodeMap := AList.update key ?node (lru_nodeMap s2)\<rparr>"
  have w1: "lru_wf ?s1"
    unfolding lru_wf_def
  proof (intro allI impI)
    fix k a
    assume "map_of (lru_nodeMap ?s1) k = Some a"
    then have "map_of (lru_nodeMap s) k = Some a" by simp
    with assms(2) have "a < length (lru_nodes s)" "lru_key (lru_nodes s ! a) = k"
      by (simp_all add: lru_wf_def)
    then show "a < length (lru_nodes ?s1) \<and> lru_key (lru_nodes ?s1 ! a) = k"
      by (simp add: nth_append)
  qed
  have v1: "lru_view ?s1 = lru_view s"
    using assms(2) by (auto simp: lru_wf_def lru_view_def nth_append fun_eq_iff map_option_case split: option.splits)
  note sm = lru_insertNode_same [OF i]
  note w2 = lru_same_wf [OF sm w1]
  note v2 = lru_same_view [OF sm w1]
  have n2: "?node < length (lru_nodes s2)" "lru_key (lru_nodes s2 ! ?node) = key"
    "lru_value (lru_nodes s2 ! ?node) = v"
    using lru_same_length [OF sm] lru_same_nth [OF sm, of ?node] by (simp_all add: MyLruNode_def)
  have w3: "lru_wf ?s3"
    using w2 n2 by (auto simp: lru_wf_def update_conv')
  have v3: "lru_view ?s3 = (lru_view s)(key \<mapsto> v)"
    using v2 v1 n2 by (auto simp: lru_view_def update_conv' fun_eq_iff)
  have c3: "lru_capacity ?s3 = lru_capacity s"
    using sm by (simp add: lru_same_def)
  show ?thesis
  proof (cases "int (length (AList.update key ?node (lru_nodeMap s2))) > to_size_t (lru_capacity s2)")
    case True
    with e have "lru_evictLeastRecent ?s3 = Inr s'" by simp
    from lru_evictLeastRecent_view [OF this w3] v3 c3 show ?thesis
      by (auto split: if_splits)
  next
    case False
    with e have "s' = ?s3" by simp
    with w3 v3 c3 show ?thesis by (auto split: if_splits)
  qed
qed

lemma lru_put_view:
  assumes "lru_put key v s = Inr s'" "lru_wf s"
  shows "lru_wf s' \<and> lru_capacity s' = lru_capacity s \<and>
         (\<forall>k x. lru_view s' k = Some x \<longrightarrow> lru_view s k = Some x \<or> (k = key \<and> x = v))"
proof (cases "lru_capacity s < 0")
  case True
  with assms show ?thesis by (simp add: lru_put_def)
next
  case False
  show ?thesis
  proof (cases "map_of (lru_nodeMap s) key")
    case None
    with assms(1) False have "lru_addNode key v s = Inr s'" by (simp add: lru_put_def)
    from lru_addNode_view [OF this assms(2)] show ?thesis .
  next
    case (Some node)
    with assms(1) False have "lru_updateExistNode node v s = Inr s'" by (simp add: lru_put_def)
    from lru_updateExistNode_view [OF this assms(2) Some] show ?thesis
      by (auto split: if_splits)
  qed
qed


lemma klru_put_inv:
  assumes "klru_put key v s = Inr s'" "klru_inv n s"
  shows "klru_inv (n(key := Suc (n key))) s' \<and> klru_k s' = klru_k s"
proof -
  let ?n' = "n(key := Suc (n key))"
  from assms(2) have wb: "lru_wf (klru_base s)" and wh: "lru_wf (klru_historyList s)"
    and ib: "\<And>k x. lru_view (klru_base s) k = Some x \<Longrightarrow> klru_k s \<le> int (n k)"
    and ih: "\<And>k c. lru_view (klru_historyList s) k = Some c \<Longrightarrow> c \<le> n k"
    by (auto simp: klru_inv_def)
  from assms(1) obtain w b1 b2 c h1 h2 where
    g1: "lru_get [] key (klru_base s) = Inr (w, b1)" and
    p1: "(if w \<noteq> [] then lru_put key v b1 else Inr b1) = Inr b2" and
    g2: "lru_get 0 key (klru_historyList s) = Inr (c, h1)" and
    p2: "lru_put key (nat (int c + 1)) h1 = Inr h2" and
    br: "(if int c + 1 \<ge> klru_k s
          then bind_err (lru_removeNode_key key h2) (\<lambda>h3.
               bind_err (lru_put key v b2) (\<lambda>b3.
                 Inr (s\<lparr>klru_base := b3, klru_historyList := h3\<rparr>)))
          else Inr (s\<lparr>klru_base := b2, klru_historyList := h2\<rparr>)) = Inr s'"
    by (auto simp: klru_put_def Let_def bind_err_Inr)
  note G1 = lru_get_view [OF g1 wb]
  have wb1: "lru_wf b1" and vb1: "lru_view b1 = lru_view (klru_base s)"
    and w: "w = (case lru_view (klru_base s) key of None \<Rightarrow> [] | Some x \<Rightarrow> x)"
    using G1 by simp_all
  have wb2: "lru_wf b2"
    and vb2: "\<And>k x. lru_view b2 k = Some x \<Longrightarrow> lru_view b1 k = Some x \<or> (k = key \<and> w \<noteq> [])"
    using p1 wb1 lru_put_view [of key v b1 b2] by (auto split: if_splits)
  have keyin: "w \<noteq> [] \<Longrightarrow> klru_k s \<le> int (n key)"
    using w ib [of key] by (auto split: option.splits)
  have ib2: "\<And>k x. lru_view b2 k = Some x \<Longrightarrow> klru_k s \<le> int (?n' k)"
  proof -
    fix k x assume "lru_view b2 k = Some x"
    from vb2 [OF this] show "klru_k s \<le> int (?n' k)"
    proof
      assume "lru_view b1 k = Some x"
      with vb1 ib [of k x] show ?thesis by auto
    next
      assume "k = key \<and> w \<noteq> []"
      with keyin show ?thesis by auto
    qed
  qed
  note G2 = lru_get_view [OF g2 wh]
  have wh1: "lru_wf h1" and vh1: "lru_view h1 = lru_view (klru_historyList s)"
    and c: "c = (case lru_view (klru_historyList s) key of None \<Rightarrow> 0 | Some x \<Rightarrow> x)"
    using G2 by simp_all
  have cn: "c \<le> n key"
    using c ih [of key] by (auto split: option.splits)
  note P2 = lru_put_view [OF p2 wh1]
  have wh2: "lru_wf h2" using P2 by simp
  have ih2: "\<And>k x. lru_view h2 k = Some x \<Longrightarrow> x \<le> ?n' k"
  proof -
    fix k x assume "lru_view h2 k = Some x"
    with P2 have "lru_view h1 k = Some x \<or> (k = key \<and> x = nat (int c + 1))" by blast
    then show "x \<le> ?n' k"
    proof
      assume "lru_view h1 k = Some x"
      with vh1 ih [of k x] show ?thesis by auto
    next
      assume "k = key \<and> x = nat (int c + 1)"
      with cn show ?thesis by auto
    qed
  qed
  show ?thesis
  proof (cases "int c + 1 \<ge> klru_k s")
    case False
    with br have "s' = s\<lparr>klru_base := b2, klru_historyList := h2\<rparr>" by simp
    with wb2 wh2 ib2 ih2 show ?thesis by (auto simp: klru_inv_def)
  next
    case True
    with br obtain h3 b3 where
      r: "lru_removeNode_key key h2 = Inr h3" and p3: "lru_put key v b2 = Inr b3"
      and e: "s' = s\<lparr>klru_base := b3, klru_historyList := h3\<rparr>"
      by (auto simp: bind_err_Inr)
    note R = lru_removeNode_key_view [OF r wh2]
    note P3 = lru_put_view [OF p3 wb2]
    have ih3: "\<And>k x. lru_view h3 k = Some x \<Longrightarrow> x \<le> ?n' k"
      using R ih2 by blast
    have ib3: "\<And>k x. lru_view b3 k = Some x \<Longrightarrow> klru_k s \<le> int (?n' k)"
    proof -
      fix k x assume "lru_view b3 k = Some x"
      with P3 have "lru_view b2 k = Some x \<or> k = key" by blast
      then show "klru_k s \<le> int (?n' k)"
      proof
        assume "lru_view b2 k = Some x"
        then show ?thesis by (rule ib2)
      next
        assume "k = key"
        with True cn show ?thesis by auto
      qed
    qed
    from R P3 ih3 ib3 e show ?thesis by (auto simp: klru_inv_def)
  qed
qed

lemma klru_get_inv:
  assumes "klru_get v key s = Inr (w, s')" "klru_inv n s"
  shows "klru_inv (n(key := Suc (n key))) s' \<and> klru_k s' = klru_k s"
proof -
  let ?n' = "n(key := Suc (n key))"
  from assms(2) have wb: "lru_wf (klru_base s)" and wh: "lru_wf (klru_historyList s)"
    and ib: "\<And>k x. lru_view (klru_base s) k = Some x \<Longrightarrow> klru_k s \<le> int (n k)"
    and ih: "\<And>k c. lru_view (klru_historyList s) k = Some c \<Longrightarrow> c \<le> n k"
    by (auto simp: klru_inv_def)
  from assms(1) obtain c h1 b1 h2 b2 where
    g2: "lru_get 0 key (klru_historyList s) = Inr (c, h1)" and
    br: "(if int c \<ge> klru_k s
          then bind_err (lru_removeNode_key key h1) (\<lambda>h2.
               bind_err (lru_put key v (klru_base s)) (\<lambda>b1. Inr (b1, h2)))
          else bind_err (lru_put key (nat (int c + 1)) h1) (\<lambda>h2. Inr (klru_base s, h2))) = Inr (b1, h2)" and
    g1: "lru_get [] key b1 = Inr (w, b2)" and
    e: "s' = s\<lparr>klru_base := b2, klru_historyList := h2\<rparr>"
    by (auto simp: klru_get_def Let_def bind_err_Inr)
  note G2 = lru_get_view [OF g2 wh]
  have wh1: "lru_wf h1" and vh1: "lru_view h1 = lru_view (klru_historyList s)"
    and c: "c = (case lru_view (klru_historyList s) key of None \<Rightarrow> 0 | Some x \<Rightarrow> x)"
    using G2 by simp_all
  have cn: "c \<le> n key"
    using c ih [of key] by (auto split: option.splits)
  have mid: "lru_wf b1 \<and> lru_wf h2 \<and>
      (\<forall>k x. lru_view b1 k = Some x \<longrightarrow> klru_k s \<le> int (?n' k)) \<and>
      (\<forall>k x. lru_view h2 k = Some x \<longrightarrow> x \<le> ?n' k)"
  proof (cases "int c \<ge> klru_k s")
    case True
    with br have r: "lru_removeNode_key key h1 = Inr h2" and p: "lru_put key v (klru_base s) = Inr b1"
      by (auto simp: bind_err_Inr)
    note R = lru_removeNode_key_view [OF r wh1]
    note P = lru_put_view [OF p wb]
    have "\<And>k x. lru_view h2 k = Some x \<Longrightarrow> x \<le> ?n' k"
    proof -
      fix k x assume "lru_view h2 k = Some x"
      with R vh1 have "lru_view (klru_historyList s) k = Some x" by auto
      from ih [OF this] show "x \<le> ?n' k" by auto
    qed
    moreover have "\<And>k x. lru_view b1 k = Some x \<Longrightarrow> klru_k s \<le> int (?n' k)"
    proof -
      fix k x assume "lru_view b1 k = Some x"
      with P have "lru_view (klru_base s) k = Some x \<or> k = key" by blast
      then show "klru_k s \<le> int (?n' k)"
      proof
        assume "lru_view (klru_base s) k = Some x"
        from ib [OF this] show ?thesis by auto
      next
        assume "k = key"
        with True cn show ?thesis by auto
      qed
    qed
    ultimately show ?thesis using R P by blast
  next
    case False
    with br have p: "lru_put key (nat (int c + 1)) h1 = Inr h2" and b: "b1 = klru_base s"
      by (auto simp: bind_err_Inr)
    note P = lru_put_view [OF p wh1]
    have "\<And>k x. lru_view h2 k = Some x \<Longrightarrow> x \<le> ?n' k"
    proof -
      fix k x assume "lru_view h2 k = Some x"
      with P have "lru_view h1 k = Some x \<or> (k = key \<and> x = nat (int c + 1))" by blast
      then show "x \<le> ?n' k"
      proof
        assume "lru_view h1 k = Some x"
        with vh1 ih [of k x] show ?thesis by auto
      next
        assume "k = key \<and> x = nat (int c + 1)"
        with cn show ?thesis by auto
      qed
    qed
    moreover have "\<And>k x. lru_view b1 k = Some x \<Longrightarrow> klru_k s \<le> int (?n' k)"
      using b ib by fastforce
    ultimately show ?thesis using P wb b by blast
  qed
  from mid have wb1: "lru_wf b1" by simp
  note G1 = lru_get_view [OF g1 wb1]
  from G1 mid e show ?thesis by (auto simp: klru_inv_def)
qed

lemma klru_step_inv:
  assumes "klru_step x s = Inr s'" "klru_inv n s"
  shows "klru_inv (n(klru_op_key x := Suc (n (klru_op_key x)))) s' \<and> klru_k s' = klru_k s"
proof (cases x)
  case (KPut key v)
  with assms klru_put_inv [of key v s s' n] show ?thesis by simp
next
  case (KGet key v)
  with assms(1) obtain w where "klru_get v key s = Inr (w, s')"
    by (auto simp: bind_err_Inr)
  from klru_get_inv [OF this assms(2)] KGet show ?thesis by simp
qed

lemma klru_run_inv:
  "run_ops klru_step ops s = Inr s' \<Longrightarrow> klru_inv n s \<Longrightarrow>
     klru_inv (\<lambda>key. n key + klru_accesses key ops) s' \<and> klru_k s' = klru_k s"
proof (induction ops arbitrary: s n)
  case Nil
  then show ?case by (simp add: klru_accesses_def)
next
  case (Cons x xs)
  from Cons.prems(1) obtain s1 where
    st: "klru_step x s = Inr s1" and rn: "run_ops klru_step xs s1 = Inr s'"
    by (auto simp: bind_err_Inr)
  note S = klru_step_inv [OF st Cons.prems(2)]
  from Cons.IH [OF rn conjunct1 [OF S]] have
    "klru_inv (\<lambda>key. (n(klru_op_key x := Suc (n (klru_op_key x)))) key + klru_accesses key xs) s'"
    "klru_k s' = klru_k s1" by simp_all
  moreover have "(\<lambda>key. (n(klru_op_key x := Suc (n (klru_op_key x)))) key + klru_accesses key xs)
      = (\<lambda>key. n key + klru_accesses key (x # xs))"
    by (auto simp: klru_accesses_def fun_eq_iff)
  ultimately show ?case using S by simp
qed

lemma klru_inv_MyKLruCache: "klru_inv (\<lambda>key. 0) (MyKLruCache dk c hc k)"
  by (simp add: klru_inv_def MyKLruCache_def MyLruCache_def lru_wf_def lru_view_def)


text \<open>
  What a promotion stores. A \<^verbatim>\<open>put\<close> of an absent key into an LRU cache that holds
  fewer keys than its capacity evicts nothing: the key is in the index map afterwards,
  with the value put.
\<close>

lemma length_update_absent:
  "k \<notin> fst ` set al \<Longrightarrow> length (AList.update k v al) = Suc (length al)"
  by (induction al) auto

lemma lru_put_stores:
  assumes "lru_put key v s = Inr s'" "lru_wf s" "map_of (lru_nodeMap s) key = None"
    and "int (length (lru_nodeMap s)) < lru_capacity s" "lru_capacity s < 2 ^ 31"
  shows "lru_view s' key = Some v"
proof -
  let ?node = "length (lru_nodes s)"
  let ?s1 = "s\<lparr>lru_nodes := lru_nodes s @ [MyLruNode key v]\<rparr>"
  have c0: "\<not> lru_capacity s < 0" using assms(4) by simp
  with assms(1,3) have "lru_addNode key v s = Inr s'" by (simp add: lru_put_def)
  then obtain s2 where
    i: "lru_insertNode ?node ?s1 = Inr s2" and
    e: "(if int (length (AList.update key ?node (lru_nodeMap s2))) > to_size_t (lru_capacity s2)
         then lru_evictLeastRecent (s2\<lparr>lru_nodeMap := AList.update key ?node (lru_nodeMap s2)\<rparr>)
         else Inr (s2\<lparr>lru_nodeMap := AList.update key ?node (lru_nodeMap s2)\<rparr>)) = Inr s'"
    by (auto simp: lru_addNode_def Let_def bind_err_Inr)
  note sm = lru_insertNode_same [OF i]
  have m2: "lru_nodeMap s2 = lru_nodeMap s" and c2: "lru_capacity s2 = lru_capacity s"
    using sm by (simp_all add: lru_same_def)
  have "key \<notin> fst ` set (lru_nodeMap s)"
    using assms(3) by (simp add: map_of_eq_None_iff)
  then have len: "length (AList.update key ?node (lru_nodeMap s2)) = Suc (length (lru_nodeMap s))"
    using m2 by (simp add: length_update_absent)
  have "to_size_t (lru_capacity s) = lru_capacity s"
    using assms(4,5) by (simp add: to_size_t_def)
  with len c2 assms(4) e have s': "s' = s2\<lparr>lru_nodeMap := AList.update key ?node (lru_nodeMap s2)\<rparr>"
    by simp
  have "lru_value (lru_nodes s2 ! ?node) = v"
    using lru_same_nth(2) [OF sm, of ?node] by (simp add: MyLruNode_def)
  with s' show ?thesis by (simp add: lru_view_def update_conv')
qed

lemma lru_removeNode_key_absent:
  assumes "lru_removeNode_key key s = Inr s'"
  shows "lru_view s' key = None"
proof (cases "map_of (lru_nodeMap s) key")
  case None
  with assms show ?thesis by (simp add: lru_removeNode_key_def lru_view_def)
next
  case (Some node)
  with assms obtain s1 where "s' = s1\<lparr>lru_nodeMap := AList.delete key (lru_nodeMap s1)\<rparr>"
    by (auto simp: lru_removeNode_key_def bind_err_Inr)
  then show ?thesis by (simp add: lru_view_def delete_conv')
qed

text \<open>No call on the wrapper changes the capacity of the main cache.\<close>

lemma klru_step_capacity:
  assumes "klru_step x s = Inr s'" "lru_wf (klru_base s)"
  shows "lru_capacity (klru_base s') = lru_capacity (klru_base s)"
proof (cases x)
  case (KPut key v)
  with assms(1) have "klru_put key v s = Inr s'" by simp
  then obtain w b1 b2 c h1 h2 where
    g1: "lru_get [] key (klru_base s) = Inr (w, b1)" and
    p1: "(if w \<noteq> [] then lru_put key v b1 else Inr b1) = Inr b2" and
    br: "(if int c + 1 \<ge> klru_k s
          then bind_err (lru_removeNode_key key h2) (\<lambda>h3.
               bind_err (lru_put key v b2) (\<lambda>b3.
                 Inr (s\<lparr>klru_base := b3, klru_historyList := h3\<rparr>)))
          else Inr (s\<lparr>klru_base := b2, klru_historyList := h2\<rparr>)) = Inr s'"
    by (auto simp: klru_put_def Let_def bind_err_Inr)
  note G1 = lru_get_view [OF g1 assms(2)]
  have b2: "lru_wf b2" "lru_capacity b2 = lru_capacity (klru_base s)"
    using p1 G1 lru_put_view [of key v b1 b2] by (auto split: if_splits)
  show ?thesis
  proof (cases "int c + 1 \<ge> klru_k s")
    case True
    with br obtain h3 b3 where "lru_put key v b2 = Inr b3" "s' = s\<lparr>klru_base := b3, klru_historyList := h3\<rparr>"
      by (auto simp: bind_err_Inr)
    with lru_put_view [of key v b2 b3] b2 show ?thesis by simp
  next
    case False
    with br b2 show ?thesis by auto
  qed
next
  case (KGet key v)
  with assms(1) obtain w where "klru_get v key s = Inr (w, s')"
    by (auto simp: bind_err_Inr)
  then obtain c h1 b1 h2 b2 where
    br: "(if int c \<ge> klru_k s
          then bind_err (lru_removeNode_key key h1) (\<lambda>h2.
               bind_err (lru_put key v (klru_base s)) (\<lambda>b1. Inr (b1, h2)))
          else bind_err (lru_put key (nat (int c + 1)) h1) (\<lambda>h2. Inr (klru_base s, h2))) = Inr (b1, h2)" and
    g1: "lru_get [] key b1 = Inr (w, b2)" and e: "s' = s\<lparr>klru_base := b2, klru_historyList := h2\<rparr>"
    by (auto simp: klru_get_def Let_def bind_err_Inr)
  have b1: "lru_wf b1 \<and> lru_capacity b1 = lru_capacity (klru_base s)"
  proof (cases "int c \<ge> klru_k s")
    case True
    with br have "lru_put key v (klru_base s) = Inr b1" by (auto simp: bind_err_Inr)
    from lru_put_view [OF this assms(2)] show ?thesis by simp
  next
    case False
    with br have "b1 = klru_base s" by (auto simp: bind_err_Inr)
    with assms(2) show ?thesis by simp
  qed
  with lru_get_view [OF g1] e show ?thesis by simp
qed

lemma klru_run_capacity:
  "run_ops klru_step ops s = Inr s' \<Longrightarrow> klru_inv n s \<Longrightarrow>
     lru_capacity (klru_base s') = lru_capacity (klru_base s)"
proof (induction ops arbitrary: s n)
  case Nil
  then show ?case by simp
next
  case (Cons x xs)
  from Cons.prems(1) obtain s1 where
    st: "klru_step x s = Inr s1" and rn: "run_ops klru_step xs s1 = Inr s'"
    by (auto simp: bind_err_Inr)
  from Cons.prems(2) have "lru_wf (klru_base s)" by (simp add: klru_inv_def)
  from klru_step_capacity [OF st this] Cons.IH [OF rn conjunct1 [OF klru_step_inv [OF st Cons.prems(2)]]]
  show ?case by simp
qed

text \<open>
  A \<^verbatim>\<open>put\<close> that finds the key absent from the main cache and brings its history count
  to \<^verbatim>\<open>k_\<close> or beyond hands the key and the value to the \<^verbatim>\<open>put\<close> of the main cache and
  removes the key from the history.
\<close>

lemma klru_put_promotes:
  assumes put: "klru_put key v s = Inr s'"
    and wb: "lru_wf (klru_base s)" and wh: "lru_wf (klru_historyList s)"
    and ab: "map_of (lru_nodeMap (klru_base s)) key = None"
    and th: "klru_k s \<le> int (klru_historyCount key s) + 1"
  shows "lru_put key v (klru_base s) = Inr (klru_base s')" "lru_wf (klru_base s')"
    "lru_view (klru_historyList s') key = None" "lru_wf (klru_historyList s')" "klru_k s' = klru_k s"
proof -
  from put obtain w b1 b2 c h1 h2 where
    g1: "lru_get [] key (klru_base s) = Inr (w, b1)" and
    p1: "(if w \<noteq> [] then lru_put key v b1 else Inr b1) = Inr b2" and
    g2: "lru_get 0 key (klru_historyList s) = Inr (c, h1)" and
    p2: "lru_put key (nat (int c + 1)) h1 = Inr h2" and
    br: "(if int c + 1 \<ge> klru_k s
          then bind_err (lru_removeNode_key key h2) (\<lambda>h3.
               bind_err (lru_put key v b2) (\<lambda>b3.
                 Inr (s\<lparr>klru_base := b3, klru_historyList := h3\<rparr>)))
          else Inr (s\<lparr>klru_base := b2, klru_historyList := h2\<rparr>)) = Inr s'"
    by (auto simp: klru_put_def Let_def bind_err_Inr)
  from g1 ab have "w = []" "b1 = klru_base s"
    by (simp_all add: lru_get_def lru_get_ref_def bind_err_def)
  with p1 have b2: "b2 = klru_base s" by simp
  note G2 = lru_get_view [OF g2 wh]
  then have c: "c = klru_historyCount key s" by (simp add: klru_historyCount_def)
  from G2 have wh1: "lru_wf h1" by simp
  from lru_put_view [OF p2 wh1] have wh2: "lru_wf h2" by simp
  from br th c obtain h3 b3 where
    r: "lru_removeNode_key key h2 = Inr h3" and p: "lru_put key v (klru_base s) = Inr b3" and
    e: "s' = s\<lparr>klru_base := b3, klru_historyList := h3\<rparr>"
    by (auto simp: bind_err_Inr b2)
  from p e show "lru_put key v (klru_base s) = Inr (klru_base s')" by simp
  from lru_put_view [OF p wb] e show "lru_wf (klru_base s')" by simp
  from lru_removeNode_key_absent [OF r] e show "lru_view (klru_historyList s') key = None" by simp
  from lru_removeNode_key_view [OF r wh2] e show "lru_wf (klru_historyList s')" by simp
  from e show "klru_k s' = klru_k s" by simp
qed

text \<open>
  A \<^verbatim>\<open>get\<close> that finds no history count of the key, on a wrapper whose threshold is at
  least 1, returns what the main cache holds for the key.
\<close>

lemma klru_get_no_history:
  assumes get: "klru_get u key s = Inr (w, s')"
    and wb: "lru_wf (klru_base s)" and wh: "lru_wf (klru_historyList s)"
    and nh: "lru_view (klru_historyList s) key = None" and k: "1 \<le> klru_k s"
  shows "w = (case lru_view (klru_base s) key of None \<Rightarrow> [] | Some x \<Rightarrow> x)"
proof -
  from get obtain c h1 b1 h2 b2 where
    g2: "lru_get 0 key (klru_historyList s) = Inr (c, h1)" and
    br: "(if int c \<ge> klru_k s
          then bind_err (lru_removeNode_key key h1) (\<lambda>h2.
               bind_err (lru_put key u (klru_base s)) (\<lambda>b1. Inr (b1, h2)))
          else bind_err (lru_put key (nat (int c + 1)) h1) (\<lambda>h2. Inr (klru_base s, h2))) = Inr (b1, h2)" and
    g1: "lru_get [] key b1 = Inr (w, b2)"
    by (auto simp: klru_get_def Let_def bind_err_Inr)
  from lru_get_view [OF g2 wh] nh have "c = 0" by simp
  with k br have "b1 = klru_base s" by (auto simp: bind_err_Inr)
  with lru_get_view [OF g1] wb show ?thesis by simp
qed


text \<open>
  The claim C1 as stated fails for a \<^verbatim>\<open>get\<close>. With threshold 2, after \<^verbatim>\<open>put(5,"v")\<close>
  the history count of key 5 is 1. The \<^verbatim>\<open>get(5)\<close> that follows brings the count to
  exactly 2; it returns the empty string that a miss yields, and the main cache is still
  empty.
\<close>

theorem klru_get_at_threshold_misses_counterexample:
  "run_ops klru_step [KPut 5 ''v''] (MyKLruCache 0 2 2 2) = Inr klru_example
   \<and> klru_k klru_example = 2
   \<and> klru_historyCount 5 klru_example = 1
   \<and> klru_get ''u'' 5 klru_example = Inr ([], klru_example_get)
   \<and> klru_historyCount 5 klru_example_get = 2
   \<and> lru_index_keys (Inr (klru_base klru_example_get)) = Inr []"
  by code_simp

text \<open>
  C1, amended. Take any state \<open>s\<close> that a sequence of \<^verbatim>\<open>put\<close> and \<^verbatim>\<open>get\<close> calls reaches
  from a wrapper constructed with main capacity \<open>c\<close> and threshold \<open>k\<close>. A key that the
  main cache's index map holds has been accessed at least \<open>k\<close> times. A \<^verbatim>\<open>put\<close> that
  finds the key absent from the main cache and brings its history count to \<open>k\<close>
  promotes it: the main cache afterwards is what its own \<^verbatim>\<open>put\<close> of the key and the
  value makes of it, and the history no longer counts the key. While the main cache
  holds fewer than \<open>c\<close> keys, it then holds the key with the value put, and with \<open>k\<close> at
  least 1 a \<^verbatim>\<open>get\<close> of the key that follows returns that value. A \<^verbatim>\<open>get\<close> that finds
  the key absent from the main cache and its history count below \<open>k\<close> (the \<^verbatim>\<open>get\<close> that
  brings the count to exactly \<open>k\<close> included) does not promote: it returns the empty
  string of a miss and leaves the key absent from the main cache.
\<close>

theorem klru_promotion_gate:
  assumes "run_ops klru_step ops (MyKLruCache dk c hc k) = Inr s"
  shows "(map_of (lru_nodeMap (klru_base s)) key \<noteq> None \<longrightarrow> k \<le> int (klru_accesses key ops))
    \<and> (map_of (lru_nodeMap (klru_base s)) key = None \<and> k \<le> int (klru_historyCount key s) + 1 \<and>
        klru_put key v s = Inr s' \<longrightarrow>
          lru_put key v (klru_base s) = Inr (klru_base s') \<and> klru_historyCount key s' = 0)
    \<and> (map_of (lru_nodeMap (klru_base s)) key = None \<and> k \<le> int (klru_historyCount key s) + 1 \<and>
        int (length (lru_nodeMap (klru_base s))) < c \<and> c < 2 ^ 31 \<and>
        klru_put key v s = Inr s' \<longrightarrow>
          lru_view (klru_base s') key = Some v \<and>
          (1 \<le> k \<and> klru_value_after u key (Inr s') = Inr w' \<longrightarrow> w' = v))
    \<and> (map_of (lru_nodeMap (klru_base s)) key = None \<and> int (klru_historyCount key s) < k \<and>
        klru_get u key s = Inr (w, t) \<longrightarrow>
          w = [] \<and> map_of (lru_nodeMap (klru_base t)) key = None)"
proof -
  from klru_run_inv [OF assms klru_inv_MyKLruCache]
  have inv: "klru_inv (\<lambda>key. klru_accesses key ops) s" and k: "klru_k s = k"
    by (simp_all add: MyKLruCache_def)
  from klru_run_capacity [OF assms klru_inv_MyKLruCache]
  have cap: "lru_capacity (klru_base s) = c"
    by (simp add: MyKLruCache_def MyLruCache_def)
  from inv have wb: "lru_wf (klru_base s)" and wh: "lru_wf (klru_historyList s)"
    and ib: "\<And>x. lru_view (klru_base s) key = Some x \<Longrightarrow> klru_k s \<le> int (klru_accesses key ops)"
    by (auto simp: klru_inv_def)
  have a: "k \<le> int (klru_accesses key ops)" if "map_of (lru_nodeMap (klru_base s)) key \<noteq> None"
  proof -
    from that obtain x where "lru_view (klru_base s) key = Some x"
      by (auto simp: lru_view_def)
    from ib [OF this] k show ?thesis by simp
  qed
  have p: "lru_put key v (klru_base s) = Inr (klru_base s') \<and> klru_historyCount key s' = 0"
    if m: "map_of (lru_nodeMap (klru_base s)) key = None"
      and th: "k \<le> int (klru_historyCount key s) + 1"
      and put: "klru_put key v s = Inr s'"
  proof -
    note P = klru_put_promotes [OF put wb wh m th [folded k]]
    from P(1,3) show ?thesis by (simp add: klru_historyCount_def)
  qed
  have q: "lru_view (klru_base s') key = Some v \<and>
           (1 \<le> k \<and> klru_value_after u key (Inr s') = Inr w' \<longrightarrow> w' = v)"
    if m: "map_of (lru_nodeMap (klru_base s)) key = None"
      and th: "k \<le> int (klru_historyCount key s) + 1"
      and room: "int (length (lru_nodeMap (klru_base s))) < c" "c < 2 ^ 31"
      and put: "klru_put key v s = Inr s'"
  proof -
    note P = klru_put_promotes [OF put wb wh m th [folded k]]
    note S = lru_put_stores [OF P(1) wb m room [folded cap]]
    have "w' = v" if k1: "1 \<le> k" and g: "klru_value_after u key (Inr s') = Inr w'"
    proof -
      from g obtain s'' where "klru_get u key s' = Inr (w', s'')"
        by (auto simp: klru_value_after_def bind_err_Inr)
      from klru_get_no_history [OF this P(2,4,3)] k1 P(5) k S show ?thesis by simp
    qed
    with S show ?thesis by blast
  qed
  have b: "w = [] \<and> map_of (lru_nodeMap (klru_base t)) key = None"
    if m: "map_of (lru_nodeMap (klru_base s)) key = None"
      and lt: "int (klru_historyCount key s) < k"
      and g: "klru_get u key s = Inr (w, t)"
  proof -
    from g obtain c h1 b1 h2 b2 where
      g2: "lru_get 0 key (klru_historyList s) = Inr (c, h1)" and
      br: "(if int c \<ge> klru_k s
            then bind_err (lru_removeNode_key key h1) (\<lambda>h2.
                 bind_err (lru_put key u (klru_base s)) (\<lambda>b1. Inr (b1, h2)))
            else bind_err (lru_put key (nat (int c + 1)) h1) (\<lambda>h2. Inr (klru_base s, h2))) = Inr (b1, h2)" and
      g1: "lru_get [] key b1 = Inr (w, b2)" and
      e: "t = s\<lparr>klru_base := b2, klru_historyList := h2\<rparr>"
      by (auto simp: klru_get_def Let_def bind_err_Inr)
    from lru_get_view [OF g2 wh] have "c = klru_historyCount key s"
      by (simp add: klru_historyCount_def)
    with lt k br have b1: "b1 = klru_base s"
      by (auto simp: bind_err_Inr)
    from m have "lru_view (klru_base s) key = None" by (simp add: lru_view_def)
    with lru_get_view [OF g1 [unfolded b1] wb] have "w = []" "lru_view b2 key = None"
      by simp_all
    with e show ?thesis by (simp add: lru_view_def)
  qed
  from a p q b show ?thesis by blast
qed

theorem klru_promotion_gate_witness:
  "run_ops klru_step [KPut 5 ''v'', KPut 5 ''w''] (MyKLruCache 0 2 2 2) = Inr klru_example_put
   \<and> map_of (lru_nodeMap (klru_base klru_example_put)) 5 = Some 2
   \<and> 2 \<le> int (klru_accesses (5::nat) [KPut 5 ''v'', KPut 5 ''w''])
   \<and> run_ops klru_step [KPut 5 ''v''] (MyKLruCache 0 2 2 2) = Inr klru_example
   \<and> map_of (lru_nodeMap (klru_base klru_example)) 5 = None
   \<and> 2 \<le> int (klru_historyCount 5 klru_example) + 1
   \<and> int (length (lru_nodeMap (klru_base klru_example))) < 2
   \<and> klru_put 5 ''w'' klru_example = Inr klru_example_put
   \<and> lru_put 5 ''w'' (klru_base klru_example) = Inr (klru_base klru_example_put)
   \<and> klru_historyCount 5 klru_example_put = 0
   \<and> lru_view (klru_base klru_example_put) 5 = Some ''w''
   \<and> klru_value_after ''u'' 5 (Inr klru_example_put) = Inr ''w''
   \<and> int (klru_historyCount 5 klru_example) < 2
   \<and> klru_get ''u'' 5 klru_example = Inr ([], klru_example_get)
   \<and> map_of (lru_nodeMap (klru_base klru_example_get)) 5 = None"
proof -
  have m1: "map_of (lru_nodeMap (klru_base klru_example_put)) 5 = Some 2"
    by (simp add: klru_example_put_def)
  have m2: "map_of (lru_nodeMap (klru_base klru_example)) 5 = None"
    by (simp add: klru_example_def MyLruCache_def)
  have h: "int (klru_historyCount 5 klru_example) < 2" "2 \<le> int (klru_historyCount 5 klru_example) + 1"
    by (simp_all add: klru_historyCount_def lru_view_def klru_example_def)
  have l: "int (length (lru_nodeMap (klru_base klru_example))) < 2"
    by (simp add: klru_example_def MyLruCache_def)
  have p: "klru_put 5 ''w'' klru_example = Inr klru_example_put"
    by code_simp
  have g: "klru_value_after ''u'' 5 (Inr klru_example_put) = Inr ''w''"
    by code_simp
  from klru_promotion_gate [OF klru_example_put_reached, of 5] m1
  have a: "2 \<le> int (klru_accesses (5::nat) [KPut 5 ''v'', KPut 5 ''w''])" by simp
  from klru_promotion_gate [OF klru_example_reached, of 5 "''w''" klru_example_put "''u''" "''w''" "[]" klru_example_get]
    m2 h l p g klru_example_get_reached
  have b: "lru_put 5 ''w'' (klru_base klru_example) = Inr (klru_base klru_example_put)"
    "klru_historyCount 5 klru_example_put = 0"
    "lru_view (klru_base klru_example_put) 5 = Some ''w''"
    "map_of (lru_nodeMap (klru_base klru_example_get)) 5 = None" by simp_all
  from klru_example_put_reached m1 a klru_example_reached m2 h l p g klru_example_get_reached b
  show ?thesis by blast
qed


section \<open>The minimum frequency after a rebalance\<close>

text \<open>
  \<^verbatim>\<open>updateMinFreq\<close> starts its scan at \<^verbatim>\<open>INT8_MAX\<close> and only lowers the value, then
  replaces \<^verbatim>\<open>INT8_MAX\<close> by 1: whatever the buckets hold, \<^verbatim>\<open>minFreq_\<close> is at most 126
  after a rebalance.
\<close>

lemma lfu_updateMinFreq_loop_le:
  "lfu_updateMinFreq_loop m h x = Inr y \<Longrightarrow> y \<le> x"
proof (induction m arbitrary: x)
  case Nil
  then show ?case by simp
next
  case (Cons pair rest)
  from Cons.prems obtain e where
    "lfu_updateMinFreq_loop rest h (if \<not> e then min x (fst pair) else x) = Inr y"
    by (auto simp: bind_err_Inr)
  from Cons.IH [OF this] show ?case by (simp split: if_splits)
qed

lemma lfu_updateMinFreq_below_INT8_MAX:
  assumes "lfu_updateMinFreq s = Inr s'"
  shows "lfu_minFreq s' < INT8_MAX"
proof -
  from assms obtain y where
    l: "lfu_updateMinFreq_loop (lfu_freqToFreqList s) (lfu_nodes s) INT8_MAX = Inr y"
    and e: "s' = s\<lparr>lfu_minFreq := (if y = INT8_MAX then 1 else y)\<rparr>"
    by (auto simp: lfu_updateMinFreq_def bind_err_Inr)
  from lfu_updateMinFreq_loop_le [OF l] e show ?thesis
    by (auto simp: INT8_MAX_def)
qed

lemma lfu_handleOverMaxAverageNum_below_INT8_MAX:
  assumes "lfu_handleOverMaxAverageNum s = Inr s'" "lfu_nodeMap s \<noteq> []"
  shows "lfu_minFreq s' < INT8_MAX"
  using assms by (auto simp: lfu_handleOverMaxAverageNum_def bind_err_Inr dest: lfu_updateMinFreq_below_INT8_MAX)

text \<open>
  The \<^verbatim>\<open>get\<close> of a resident key never dereferences a null pointer in a state that
  satisfies \<open>lfu_links_ok\<close>, and leaves such a state.
\<close>

lemma length_node_set [simp]:
  "length (node_set_prev a v h) = length h"
  "length (node_set_next a v h) = length h"
  "length (node_set_freq a f h) = length h"
  by (simp_all add: node_set_prev_def node_set_next_def node_set_freq_def)

lemma nth_node_set_prev [simp]:
  "node_prev (node_set_prev a v h ! b) = (if b = a \<and> a < length h then v else node_prev (h ! b))"
  "node_next (node_set_prev a v h ! b) = node_next (h ! b)"
  by (cases "a < length h"; cases "b = a"; simp add: node_set_prev_def list_update_beyond)+

lemma nth_node_set_next [simp]:
  "node_next (node_set_next a v h ! b) = (if b = a \<and> a < length h then v else node_next (h ! b))"
  "node_prev (node_set_next a v h ! b) = node_prev (h ! b)"
  by (cases "a < length h"; cases "b = a"; simp add: node_set_next_def list_update_beyond)+

lemma nth_node_set_freq [simp]:
  "node_next (node_set_freq a v h ! b) = node_next (h ! b)"
  "node_prev (node_set_freq a v h ! b) = node_prev (h ! b)"
  by (cases "a < length h"; cases "b = a"; simp add: node_set_freq_def list_update_beyond)+

lemma links_ok_set_freq [simp]: "links_ok m (node_set_freq a f h) = links_ok m h"
  by (simp add: links_ok_def)

lemma links_okD_prev:
  "links_ok m h \<Longrightarrow> a < length h \<Longrightarrow> node_prev (h ! a) = Some p \<Longrightarrow> p < length h \<and> p \<notin> fl_tails m"
  unfolding links_ok_def by blast

lemma links_okD_tail:
  "links_ok m h \<Longrightarrow> t \<in> fl_tails m \<Longrightarrow>
     t < length h \<and> node_next (h ! t) = None \<and> node_prev (h ! t) \<noteq> None"
  unfolding links_ok_def by blast

lemma links_okD_fl:
  "links_ok m h \<Longrightarrow> it \<in> set m \<Longrightarrow> fl_head (snd it) \<noteq> None \<and> fl_tail (snd it) \<noteq> None"
  unfolding links_ok_def by blast

lemma tail_not_linked:
  "links_ok m h \<Longrightarrow> node_next (h ! n) = Some nx \<Longrightarrow> n \<notin> fl_tails m"
  using links_okD_tail by fastforce

lemma Freqlist_remove_ok:
  assumes ok: "links_ok m h" and n: "n < length h"
  shows "\<exists>h'. Freqlist_remove (Some n) fl h = Inr h' \<and> links_ok m h' \<and> length h' = length h"
proof (cases "\<exists>hd tl p nx. fl_head fl = Some hd \<and> fl_tail fl = Some tl \<and>
                node_prev (h ! n) = Some p \<and> node_next (h ! n) = Some nx")
  case False
  then have "Freqlist_remove (Some n) fl h = Inr h"
    by (auto simp: Freqlist_remove_def split: option.splits)
  with ok show ?thesis by simp
next
  case True
  then obtain hd tl p nx where fl: "fl_head fl = Some hd" "fl_tail fl = Some tl"
    and p: "node_prev (h ! n) = Some p" and nx: "node_next (h ! n) = Some nx"
    by blast
  let ?h' = "node_set_next n None (node_set_prev n None (node_set_prev nx (Some p) (node_set_next p (Some nx) h)))"
  have n1: "node_next (node_set_next p (Some nx) h ! n) = Some nx"
    using nx by simp
  have p1: "node_prev (node_set_next p (Some nx) h ! n) = Some p"
    using p by simp
  have r: "Freqlist_remove (Some n) fl h = Inr ?h'"
    unfolding Freqlist_remove_def by (simp only: fl p nx n1 p1 Let_def option.case prod.case)
  have pv: "p < length h" "p \<notin> fl_tails m"
    using links_okD_prev [OF ok n p] by simp_all
  have nt: "n \<notin> fl_tails m"
    using ok nx by (rule tail_not_linked)
  have "links_ok m ?h'"
    unfolding links_ok_def
  proof (intro conjI ballI allI impI)
    fix it assume "it \<in> set m"
    from links_okD_fl [OF ok this] show "fl_head (snd it) \<noteq> None" "fl_tail (snd it) \<noteq> None"
      by simp_all
  next
    fix tl' assume t: "tl' \<in> fl_tails m"
    from links_okD_tail [OF ok t]
    have o: "tl' < length h" "node_next (h ! tl') = None" "node_prev (h ! tl') \<noteq> None"
      by simp_all
    from t pv nt have ne: "tl' \<noteq> p" "tl' \<noteq> n" by auto
    show "tl' < length ?h'" using o by simp
    show "node_next (?h' ! tl') = None" using o ne by simp
    show "node_prev (?h' ! tl') \<noteq> None" using o ne by simp
  next
    fix a q assume a: "a < length ?h'" and q: "node_prev (?h' ! a) = Some q"
    have "node_prev (?h' ! a) =
        (if a = n then None else if a = nx \<and> nx < length h then Some p else node_prev (h ! a))"
      using n by simp
    with q have "q = p \<or> node_prev (h ! a) = Some q"
      by (auto split: if_splits)
    moreover have "q < length h \<and> q \<notin> fl_tails m" if "node_prev (h ! a) = Some q"
      using links_okD_prev [OF ok _ that] a by simp
    ultimately have "q < length h \<and> q \<notin> fl_tails m" using pv by blast
    then show "q < length ?h'" "q \<notin> fl_tails m" by simp_all
  qed
  with r show ?thesis by simp
qed

lemma Freqlist_addNode_ok:
  assumes ok: "links_ok m h" and it: "it \<in> set m" and n: "n < length h" "n \<notin> fl_tails m"
  shows "\<exists>h'. Freqlist_addNode (Some n) (snd it) h = Inr h' \<and> links_ok m h' \<and> length h' = length h"
proof -
  from links_okD_fl [OF ok it] obtain hd tl where fl: "fl_head (snd it) = Some hd" "fl_tail (snd it) = Some tl"
    by auto
  with it have t: "tl \<in> fl_tails m" by (auto simp: fl_tails_def)
  from links_okD_tail [OF ok t] obtain p where
    tv: "tl < length h" "node_next (h ! tl) = None" "node_prev (h ! tl) = Some p"
    by auto
  from links_okD_prev [OF ok tv(1) tv(3)] have pv: "p < length h" "p \<notin> fl_tails m" by simp_all
  from t n have ne: "tl \<noteq> n" by auto
  let ?h' = "node_set_prev tl (Some n) (node_set_next p (Some n)
               (node_set_next n (Some tl) (node_set_prev n (Some p) h)))"
  have p1: "node_prev (node_set_next n (Some tl) (node_set_prev n (Some p) h) ! tl) = Some p"
    using tv ne by simp
  have r: "Freqlist_addNode (Some n) (snd it) h = Inr ?h'"
    unfolding Freqlist_addNode_def by (simp only: fl tv p1 Let_def option.case prod.case)
  have "links_ok m ?h'"
    unfolding links_ok_def
  proof (intro conjI ballI allI impI)
    fix it' assume "it' \<in> set m"
    from links_okD_fl [OF ok this] show "fl_head (snd it') \<noteq> None" "fl_tail (snd it') \<noteq> None"
      by simp_all
  next
    fix tl' assume t': "tl' \<in> fl_tails m"
    from links_okD_tail [OF ok t']
    have o: "tl' < length h" "node_next (h ! tl') = None" "node_prev (h ! tl') \<noteq> None"
      by simp_all
    from t' pv n have ne': "tl' \<noteq> p" "tl' \<noteq> n" by auto
    show "tl' < length ?h'" using o by simp
    show "node_next (?h' ! tl') = None" using o ne' by simp
    show "node_prev (?h' ! tl') \<noteq> None" using o ne' by simp
  next
    fix a q assume a: "a < length ?h'" and q: "node_prev (?h' ! a) = Some q"
    have "node_prev (?h' ! a) =
        (if a = tl then Some n else if a = n then Some p else node_prev (h ! a))"
      using n tv by simp
    with q have "q = n \<or> q = p \<or> node_prev (h ! a) = Some q"
      by (auto split: if_splits)
    moreover have "q < length h \<and> q \<notin> fl_tails m" if "node_prev (h ! a) = Some q"
      using links_okD_prev [OF ok _ that] a by simp
    ultimately have "q < length h \<and> q \<notin> fl_tails m" using pv n by blast
    then show "q < length ?h'" "q \<notin> fl_tails m" by simp_all
  qed
  with r show ?thesis by simp
qed


lemma set_update_absent:
  "map_of m f = None \<Longrightarrow> set (AList.update f fl m) = insert (f, fl) (set m)"
  by (induction m) (auto split: if_splits)

lemma fl_tails_update:
  "map_of m f = None \<Longrightarrow> fl_tail fl = Some t \<Longrightarrow>
     fl_tails (AList.update f fl m) = insert t (fl_tails m)"
  by (auto simp: fl_tails_def set_update_absent)

lemma Freqlist_new_ok:
  assumes ok: "links_ok m h" and f: "map_of m f = None"
    and c: "Freqlist dk dv f h = (fl, h')"
  shows "links_ok (AList.update f fl m) h'"
    and "fl_tails (AList.update f fl m) = insert (Suc (length h)) (fl_tails m)"
    and "length h' = length h + 2"
    and "\<And>a. a < length h \<Longrightarrow> h' ! a = h ! a"
proof -
  from c have fl: "fl = \<lparr>fl_freq = f, fl_head = Some (length h), fl_tail = Some (Suc (length h))\<rparr>"
    and h': "h' = h @ [(Node dk dv)\<lparr>node_next := Some (Suc (length h))\<rparr>,
                       (Node dk dv)\<lparr>node_prev := Some (length h)\<rparr>]"
    by (auto simp: Freqlist_def Let_def)
  show len: "length h' = length h + 2" using h' by simp
  show old: "\<And>a. a < length h \<Longrightarrow> h' ! a = h ! a" using h' by (simp add: nth_append)
  have n0: "h' ! length h = (Node dk dv)\<lparr>node_next := Some (Suc (length h))\<rparr>"
    and n1: "h' ! Suc (length h) = (Node dk dv)\<lparr>node_prev := Some (length h)\<rparr>"
    using h' by (simp_all add: nth_append)
  show tails: "fl_tails (AList.update f fl m) = insert (Suc (length h)) (fl_tails m)"
    using f fl by (simp add: fl_tails_update)
  have told: "\<And>t. t \<in> fl_tails m \<Longrightarrow> t < length h"
    using links_okD_tail [OF ok] by blast
  show "links_ok (AList.update f fl m) h'"
    unfolding links_ok_def
  proof (intro conjI ballI allI impI)
    fix it assume "it \<in> set (AList.update f fl m)"
    then have "it = (f, fl) \<or> it \<in> set m" using f by (simp add: set_update_absent)
    then have "fl_head (snd it) \<noteq> None \<and> fl_tail (snd it) \<noteq> None"
    proof
      assume "it = (f, fl)"
      with fl show ?thesis by simp
    next
      assume "it \<in> set m"
      from links_okD_fl [OF ok this] show ?thesis .
    qed
    then show "fl_head (snd it) \<noteq> None" "fl_tail (snd it) \<noteq> None" by simp_all
  next
    fix t assume "t \<in> fl_tails (AList.update f fl m)"
    then have "t = Suc (length h) \<or> t \<in> fl_tails m" using tails by simp
    then show "t < length h'" "node_next (h' ! t) = None" "node_prev (h' ! t) \<noteq> None"
    proof -
      assume d: "t = Suc (length h) \<or> t \<in> fl_tails m"
      show "t < length h'" using d told [of t] len by auto
      show "node_next (h' ! t) = None" using d told [of t] old [of t] n1 links_okD_tail [OF ok, of t]
        by (auto simp: Node_def)
      show "node_prev (h' ! t) \<noteq> None" using d told [of t] old [of t] n1 links_okD_tail [OF ok, of t]
        by (auto simp: Node_def)
    qed
  next
    fix a p assume a: "a < length h'" and p: "node_prev (h' ! a) = Some p"
    have "a < length h \<or> a = length h \<or> a = Suc (length h)" using a len by arith
    then have "(a < length h \<and> node_prev (h ! a) = Some p) \<or> (a = Suc (length h) \<and> p = length h)"
      using p old [of a] n0 n1 by (auto simp: Node_def)
    then have "(p < length h \<and> p \<notin> fl_tails m) \<or> p = length h"
      using links_okD_prev [OF ok] by blast
    then show "p < length h'" "p \<notin> fl_tails (AList.update f fl m)"
      using len tails told [of p] by auto
  qed
qed

lemma lfu_mid_okD:
  assumes "lfu_mid_ok s"
  shows "links_ok (lfu_freqToFreqList s) (lfu_nodes s)"
    and "\<And>it. it \<in> set (lfu_nodeMap s) \<Longrightarrow>
           snd it < length (lfu_nodes s) \<and> snd it \<notin> fl_tails (lfu_freqToFreqList s)"
  using assms unfolding lfu_mid_ok_def by blast+

lemma lfu_removeFromFreqList_ok:
  assumes ok: "lfu_mid_ok s" and n: "n < length (lfu_nodes s)"
    and b: "map_of (lfu_freqToFreqList s) (node_freq (lfu_nodes s ! n)) \<noteq> None"
  shows "\<exists>s'. lfu_removeFromFreqList (Some n) s = Inr s' \<and> lfu_mid_ok s'"
proof -
  from b obtain fl where fl: "map_of (lfu_freqToFreqList s) (node_freq (lfu_nodes s ! n)) = Some fl"
    by auto
  from Freqlist_remove_ok [OF lfu_mid_okD(1) [OF ok] n, of fl] obtain h' where
    r: "Freqlist_remove (Some n) fl (lfu_nodes s) = Inr h'"
    and l: "links_ok (lfu_freqToFreqList s) h'" "length h' = length (lfu_nodes s)"
    by blast
  have e: "lfu_removeFromFreqList (Some n) s = Inr (s\<lparr>lfu_nodes := h'\<rparr>)"
    using fl r by (simp add: lfu_removeFromFreqList_def lfu_freqlist_at_def bind_err_def)
  have "lfu_mid_ok (s\<lparr>lfu_nodes := h'\<rparr>)"
    unfolding lfu_mid_ok_def using l lfu_mid_okD(2) [OF ok] by simp
  with e show ?thesis by blast
qed

lemma lfu_addToFreqList_ok:
  assumes ok: "lfu_mid_ok s" and n: "n < length (lfu_nodes s)" "n \<notin> fl_tails (lfu_freqToFreqList s)"
  shows "\<exists>s'. lfu_addToFreqList (Some n) s = Inr s' \<and> lfu_mid_ok s' \<and>
           map_of (lfu_freqToFreqList s') (node_freq (lfu_nodes s ! n)) \<noteq> None \<and>
           (\<forall>f. map_of (lfu_freqToFreqList s) f \<noteq> None \<longrightarrow> map_of (lfu_freqToFreqList s') f \<noteq> None)"
proof -
  let ?f = "node_freq (lfu_nodes s ! n)"
  let ?m = "lfu_freqToFreqList s"
  let ?h = "lfu_nodes s"
  note lk = lfu_mid_okD(1) [OF ok]
  show ?thesis
  proof (cases "map_of ?m ?f")
    case (Some fl)
    then have it: "(?f, fl) \<in> set ?m" by (rule map_of_SomeD)
    from Freqlist_addNode_ok [OF lk it n] obtain h' where
      a: "Freqlist_addNode (Some n) fl ?h = Inr h'" and l: "links_ok ?m h'" "length h' = length ?h"
      by auto
    have e: "lfu_addToFreqList (Some n) s = Inr (s\<lparr>lfu_nodes := h'\<rparr>)"
      using Some a by (simp add: lfu_addToFreqList_def lfu_freqlist_at_def bind_err_def Let_def)
    have "lfu_mid_ok (s\<lparr>lfu_nodes := h'\<rparr>)"
      unfolding lfu_mid_ok_def using l lfu_mid_okD(2) [OF ok] by simp
    with e Some show ?thesis by auto
  next
    case None
    obtain fl h1 where c: "Freqlist (lfu_defaultKey s) (lfu_defaultValue s) ?f ?h = (fl, h1)"
      by (cases "Freqlist (lfu_defaultKey s) (lfu_defaultValue s) ?f ?h") auto
    let ?m1 = "AList.update ?f fl ?m"
    note N = Freqlist_new_ok [OF lk None c]
    have it: "(?f, fl) \<in> set ?m1" using None by (simp add: set_update_absent)
    have n1: "n < length h1" "n \<notin> fl_tails ?m1" using n N(2,3) by auto
    from Freqlist_addNode_ok [OF N(1) it n1] obtain h' where
      a: "Freqlist_addNode (Some n) fl h1 = Inr h'" and l: "links_ok ?m1 h'" "length h' = length h1"
      by auto
    have e: "lfu_addToFreqList (Some n) s = Inr (s\<lparr>lfu_freqToFreqList := ?m1, lfu_nodes := h'\<rparr>)"
      using None c a
      by (simp add: lfu_addToFreqList_def lfu_freqlist_at_def bind_err_def Let_def update_conv')
    have "lfu_mid_ok (s\<lparr>lfu_freqToFreqList := ?m1, lfu_nodes := h'\<rparr>)"
      unfolding lfu_mid_ok_def
    proof (intro conjI ballI)
      show "links_ok (lfu_freqToFreqList (s\<lparr>lfu_freqToFreqList := ?m1, lfu_nodes := h'\<rparr>))
              (lfu_nodes (s\<lparr>lfu_freqToFreqList := ?m1, lfu_nodes := h'\<rparr>))"
        using l by simp
    next
      fix it assume "it \<in> set (lfu_nodeMap (s\<lparr>lfu_freqToFreqList := ?m1, lfu_nodes := h'\<rparr>))"
      then have "it \<in> set (lfu_nodeMap s)" by simp
      from lfu_mid_okD(2) [OF ok this] l(2) N(2,3)
      show "snd it < length (lfu_nodes (s\<lparr>lfu_freqToFreqList := ?m1, lfu_nodes := h'\<rparr>))"
        "snd it \<notin> fl_tails (lfu_freqToFreqList (s\<lparr>lfu_freqToFreqList := ?m1, lfu_nodes := h'\<rparr>))"
        by auto
    qed
    moreover have "map_of ?m1 ?f \<noteq> None" by (simp add: update_conv')
    moreover have "\<forall>f. map_of ?m f \<noteq> None \<longrightarrow> map_of ?m1 f \<noteq> None" by (simp add: update_conv')
    ultimately show ?thesis using e by auto
  qed
qed


lemma freqs_eq_length: "freqs h' = freqs h \<Longrightarrow> length h' = length h"
  by (metis length_freqs)

lemma freqs_nth: "a < length h \<Longrightarrow> freqs h ! a = node_freq (h ! a)"
  by (simp add: freqs_def)

lemma freqs_prefix_nth:
  assumes "freqs h' = freqs h @ zs" "a < length h"
  shows "node_freq (h' ! a) = node_freq (h ! a)"
proof -
  have "length h' = length h + length zs"
    using arg_cong [OF assms(1), of length] by (simp add: length_freqs)
  with assms(2) have "a < length h'" by simp
  then have "node_freq (h' ! a) = freqs h' ! a" by (simp add: freqs_nth)
  also have "\<dots> = freqs h ! a" using assms by (simp add: nth_append length_freqs)
  also have "\<dots> = node_freq (h ! a)" using assms(2) by (simp add: freqs_nth)
  finally show ?thesis .
qed

lemma lfu_links_ok_counters [simp]:
  "lfu_links_ok (s\<lparr>lfu_minFreq := a\<rparr>) = lfu_links_ok s"
  "lfu_links_ok (s\<lparr>lfu_curTotalNum := b\<rparr>) = lfu_links_ok s"
  "lfu_links_ok (s\<lparr>lfu_curAverageNum := c\<rparr>) = lfu_links_ok s"
  by (simp_all add: lfu_links_ok_def lfu_mid_ok_def lfu_buckets_for_def)

lemma lfu_links_okD:
  assumes "lfu_links_ok s" "it \<in> set (lfu_nodeMap s)"
  shows "snd it < length (lfu_nodes s)" "snd it \<notin> fl_tails (lfu_freqToFreqList s)"
    "map_of (lfu_freqToFreqList s) (node_freq (lfu_nodes s ! snd it)) \<noteq> None"
  using assms unfolding lfu_links_ok_def lfu_mid_ok_def lfu_buckets_for_def by blast+

text \<open>Taking a node out of its bucket, writing a frequency, and filing it again.\<close>

lemma lfu_refile_ok:
  assumes ok: "lfu_links_ok s" and it: "it \<in> set (lfu_nodeMap s)"
  shows "\<exists>s1 s3. lfu_removeFromFreqList (Some (snd it)) s = Inr s1 \<and>
           lfu_addToFreqList (Some (snd it))
             (s1\<lparr>lfu_nodes := node_set_freq (snd it) (g s1) (lfu_nodes s1)\<rparr>) = Inr s3 \<and>
           lfu_links_ok s3 \<and> lfu_nodeMap s3 = lfu_nodeMap s \<and>
           (\<forall>f. map_of (lfu_freqToFreqList s) f \<noteq> None \<longrightarrow> map_of (lfu_freqToFreqList s3) f \<noteq> None)"
proof -
  let ?n = "snd it"
  note d = lfu_links_okD [OF ok it]
  from ok have mid: "lfu_mid_ok s" and bf: "lfu_buckets_for s"
    by (simp_all add: lfu_links_ok_def)
  from lfu_removeFromFreqList_ok [OF mid d(1) d(3)] obtain s1 where
    r: "lfu_removeFromFreqList (Some ?n) s = Inr s1" and m1: "lfu_mid_ok s1"
    by blast
  note fr = lfu_removeFromFreqList_frame [OF r]
  have same1: "lfu_nodeMap s1 = lfu_nodeMap s" "lfu_freqToFreqList s1 = lfu_freqToFreqList s"
    "length (lfu_nodes s1) = length (lfu_nodes s)"
    using fr lfu_frame_fields(1) [of s s1] freqs_eq_length [of "lfu_nodes s1" "lfu_nodes s"]
    by simp_all
  let ?s2 = "s1\<lparr>lfu_nodes := node_set_freq ?n (g s1) (lfu_nodes s1)\<rparr>"
  have m2: "lfu_mid_ok ?s2"
    using m1 by (simp add: lfu_mid_ok_def)
  have n2: "?n < length (lfu_nodes ?s2)" "?n \<notin> fl_tails (lfu_freqToFreqList ?s2)"
    using d same1 by simp_all
  from lfu_addToFreqList_ok [OF m2 n2] obtain s3 where
    a: "lfu_addToFreqList (Some ?n) ?s2 = Inr s3" and m3: "lfu_mid_ok s3"
    and b3: "map_of (lfu_freqToFreqList s3) (node_freq (lfu_nodes ?s2 ! ?n)) \<noteq> None"
    and g3: "\<forall>f. map_of (lfu_freqToFreqList ?s2) f \<noteq> None \<longrightarrow> map_of (lfu_freqToFreqList s3) f \<noteq> None"
    by blast
  note fa = lfu_addToFreqList_frame [OF a]
  from fa obtain zs where zs: "freqs (lfu_nodes s3) = freqs (lfu_nodes ?s2) @ zs" by blast
  have nm3: "lfu_nodeMap s3 = lfu_nodeMap s"
    using lfu_frame_fields(1) [OF conjunct1 [OF fa]] same1 by simp
  have grow: "\<forall>f. map_of (lfu_freqToFreqList s) f \<noteq> None \<longrightarrow> map_of (lfu_freqToFreqList s3) f \<noteq> None"
    using g3 same1 by simp
  have "lfu_buckets_for s3"
    unfolding lfu_buckets_for_def
  proof
    fix it' assume "it' \<in> set (lfu_nodeMap s3)"
    then have i': "it' \<in> set (lfu_nodeMap s)" using nm3 by simp
    note d' = lfu_links_okD [OF ok i']
    have l2: "snd it' < length (lfu_nodes ?s2)" using d'(1) same1 by simp
    have e3: "node_freq (lfu_nodes s3 ! snd it') = node_freq (lfu_nodes ?s2 ! snd it')"
      using freqs_prefix_nth [OF zs l2] .
    show "map_of (lfu_freqToFreqList s3) (node_freq (lfu_nodes s3 ! snd it')) \<noteq> None"
    proof (cases "snd it' = ?n")
      case True
      with e3 b3 show ?thesis by simp
    next
      case False
      then have "node_freq (lfu_nodes ?s2 ! snd it') = node_freq (lfu_nodes s1 ! snd it')"
        by (simp add: node_set_freq_def)
      also have "\<dots> = node_freq (lfu_nodes s ! snd it')"
        using fr d'(1) freqs_prefix_nth [of "lfu_nodes s1" "lfu_nodes s" "[]" "snd it'"] by simp
      finally show ?thesis using e3 d'(3) grow by simp
    qed
  qed
  with m3 have "lfu_links_ok s3" by (simp add: lfu_links_ok_def)
  with r a nm3 grow show ?thesis by blast
qed

lemma lfu_handleOverMaxAverageNum_loop_ok:
  "lfu_links_ok s \<Longrightarrow> set m \<subseteq> set (lfu_nodeMap s) \<Longrightarrow>
     \<exists>s'. lfu_handleOverMaxAverageNum_loop m s = Inr s' \<and> lfu_links_ok s'"
proof (induction m arbitrary: s)
  case Nil
  then show ?case by simp
next
  case (Cons it rest)
  from Cons.prems(2) have it: "it \<in> set (lfu_nodeMap s)" by simp
  let ?g = "\<lambda>s1. if node_freq (lfu_nodes s1 ! snd it) - cpp_div (lfu_maxAverageNum s1) 2 < 1 then 1
                 else node_freq (lfu_nodes s1 ! snd it) - cpp_div (lfu_maxAverageNum s1) 2"
  from lfu_refile_ok [OF Cons.prems(1) it, of ?g] obtain s1 s3 where
    r: "lfu_removeFromFreqList (Some (snd it)) s = Inr s1" and
    a: "lfu_addToFreqList (Some (snd it)) (s1\<lparr>lfu_nodes := node_set_freq (snd it) (?g s1) (lfu_nodes s1)\<rparr>) = Inr s3"
    and ok3: "lfu_links_ok s3" and nm: "lfu_nodeMap s3 = lfu_nodeMap s"
    by blast
  from Cons.prems(2) nm have "set rest \<subseteq> set (lfu_nodeMap s3)" by simp
  from Cons.IH [OF ok3 this] obtain s' where
    l: "lfu_handleOverMaxAverageNum_loop rest s3 = Inr s'" and ok': "lfu_links_ok s'"
    by blast
  have "lfu_handleOverMaxAverageNum_loop (it # rest) s = Inr s'"
    using r a l by (simp add: Let_def bind_err_def)
  with ok' show ?case by blast
qed

lemma lfu_updateMinFreq_loop_ok:
  "\<forall>it \<in> set m. fl_head (snd it) \<noteq> None \<Longrightarrow> \<exists>y. lfu_updateMinFreq_loop m h x = Inr y"
proof (induction m arbitrary: x)
  case Nil
  then show ?case by simp
next
  case (Cons pair rest)
  then obtain hd' where "fl_head (snd pair) = Some hd'" by auto
  then have "\<exists>e. Freqlist_isEmpty (snd pair) h = Inr e"
    by (simp add: Freqlist_isEmpty_def)
  then obtain e where e: "Freqlist_isEmpty (snd pair) h = Inr e" by blast
  from Cons.IH [of "if \<not> e then min x (fst pair) else x"] Cons.prems
  obtain y where "lfu_updateMinFreq_loop rest h (if \<not> e then min x (fst pair) else x) = Inr y"
    by auto
  with e show ?case by (simp add: bind_err_def)
qed

lemma lfu_updateMinFreq_ok:
  assumes "lfu_links_ok s"
  shows "\<exists>s'. lfu_updateMinFreq s = Inr s' \<and> lfu_links_ok s'"
proof -
  from assms have "links_ok (lfu_freqToFreqList s) (lfu_nodes s)"
    by (simp add: lfu_links_ok_def lfu_mid_ok_def)
  then have "\<forall>it \<in> set (lfu_freqToFreqList s). fl_head (snd it) \<noteq> None"
    using links_okD_fl by blast
  from lfu_updateMinFreq_loop_ok [OF this] obtain y where
    "lfu_updateMinFreq_loop (lfu_freqToFreqList s) (lfu_nodes s) INT8_MAX = Inr y" by blast
  then have "lfu_updateMinFreq s = Inr (s\<lparr>lfu_minFreq := (if y = INT8_MAX then 1 else y)\<rparr>)"
    by (simp add: lfu_updateMinFreq_def bind_err_def)
  with assms show ?thesis by simp
qed

lemma lfu_handleOverMaxAverageNum_ok:
  assumes "lfu_links_ok s"
  shows "\<exists>s'. lfu_handleOverMaxAverageNum s = Inr s' \<and> lfu_links_ok s'"
proof (cases "lfu_nodeMap s = []")
  case True
  with assms show ?thesis by (simp add: lfu_handleOverMaxAverageNum_def)
next
  case False
  from lfu_handleOverMaxAverageNum_loop_ok [OF assms subset_refl] obtain s1 where
    l: "lfu_handleOverMaxAverageNum_loop (lfu_nodeMap s) s = Inr s1" and ok1: "lfu_links_ok s1"
    by blast
  from lfu_updateMinFreq_ok [OF ok1] obtain s' where "lfu_updateMinFreq s1 = Inr s'" "lfu_links_ok s'"
    by blast
  with l False show ?thesis by (simp add: lfu_handleOverMaxAverageNum_def bind_err_def)
qed

lemma lfu_addFreqNum_ok:
  assumes "lfu_links_ok s"
  shows "\<exists>s'. lfu_addFreqNum s = Inr s' \<and> lfu_links_ok s'"
proof -
  let ?s1 = "s\<lparr>lfu_curTotalNum := lfu_curTotalNum s + 1\<rparr>"
  let ?s2 = "?s1\<lparr>lfu_curAverageNum := lfu_average ?s1\<rparr>"
  have ok2: "lfu_links_ok ?s2" using assms by simp
  show ?thesis
  proof (cases "lfu_curAverageNum ?s2 > lfu_maxAverageNum ?s2")
    case True
    from lfu_handleOverMaxAverageNum_ok [OF ok2] True show ?thesis
      by (simp add: lfu_addFreqNum_def Let_def)
  next
    case False
    with ok2 show ?thesis by (simp add: lfu_addFreqNum_def Let_def)
  qed
qed

lemma lfu_getInternal_ok:
  assumes ok: "lfu_links_ok s" and it: "it \<in> set (lfu_nodeMap s)"
  shows "\<exists>s'. lfu_getInternal (snd it) s = Inr s' \<and> lfu_links_ok s'"
proof -
  let ?n = "snd it"
  let ?g = "\<lambda>s1. node_freq (lfu_nodes s1 ! ?n) + 1"
  note d = lfu_links_okD [OF ok it]
  from lfu_refile_ok [OF ok it, of ?g] obtain s1 s3 where
    r: "lfu_removeFromFreqList (Some ?n) s = Inr s1" and
    a: "lfu_addToFreqList (Some ?n) (s1\<lparr>lfu_nodes := node_set_freq ?n (?g s1) (lfu_nodes s1)\<rparr>) = Inr s3"
    and ok3: "lfu_links_ok s3" and nm: "lfu_nodeMap s3 = lfu_nodeMap s"
    and grow: "\<forall>f. map_of (lfu_freqToFreqList s) f \<noteq> None \<longrightarrow> map_of (lfu_freqToFreqList s3) f \<noteq> None"
    by blast
  note fr = lfu_removeFromFreqList_frame [OF r]
  note fa = lfu_addToFreqList_frame [OF a]
  have l1: "length (lfu_nodes s1) = length (lfu_nodes s)"
    using fr freqs_eq_length [of "lfu_nodes s1" "lfu_nodes s"] by simp
  from fa obtain zs where
    zs: "freqs (lfu_nodes s3) = freqs (lfu_nodes (s1\<lparr>lfu_nodes := node_set_freq ?n (?g s1) (lfu_nodes s1)\<rparr>)) @ zs"
    by blast
  have f3: "node_freq (lfu_nodes s3 ! ?n) = node_freq (lfu_nodes s ! ?n) + 1"
  proof -
    have "node_freq (lfu_nodes s3 ! ?n) =
        node_freq (lfu_nodes (s1\<lparr>lfu_nodes := node_set_freq ?n (?g s1) (lfu_nodes s1)\<rparr>) ! ?n)"
      using freqs_prefix_nth [OF zs] d(1) l1 by simp
    also have "\<dots> = node_freq (lfu_nodes s1 ! ?n) + 1"
      using d(1) l1 by (simp add: node_set_freq_def)
    also have "node_freq (lfu_nodes s1 ! ?n) = node_freq (lfu_nodes s ! ?n)"
      using fr d(1) freqs_prefix_nth [of "lfu_nodes s1" "lfu_nodes s" "[]" ?n] by simp
    finally show ?thesis .
  qed
  have mf: "lfu_minFreq s3 = lfu_minFreq s"
    using lfu_frame_fields(2) [OF conjunct1 [OF fa]] lfu_frame_fields(2) [OF conjunct1 [OF fr]] by simp
  have "\<exists>s4. (if node_freq (lfu_nodes s3 ! ?n) = lfu_minFreq s3 + 1
         then bind_err (lfu_freqlist_at (lfu_minFreq s3) s3) (\<lambda>fl.
              bind_err (Freqlist_isEmpty fl (lfu_nodes s3)) (\<lambda>empty.
                Inr (if empty then s3\<lparr>lfu_minFreq := lfu_minFreq s3 + 1\<rparr> else s3)))
         else Inr s3) = Inr s4 \<and> lfu_links_ok s4"
  proof (cases "node_freq (lfu_nodes s3 ! ?n) = lfu_minFreq s3 + 1")
    case False
    with ok3 show ?thesis by simp
  next
    case True
    with f3 have "lfu_minFreq s3 = node_freq (lfu_nodes s ! ?n)" by simp
    with d(3) grow obtain fl where fl: "map_of (lfu_freqToFreqList s3) (lfu_minFreq s3) = Some fl"
      by auto
    then have "(lfu_minFreq s3, fl) \<in> set (lfu_freqToFreqList s3)" by (rule map_of_SomeD)
    moreover from ok3 have "links_ok (lfu_freqToFreqList s3) (lfu_nodes s3)"
      by (simp add: lfu_links_ok_def lfu_mid_ok_def)
    ultimately have "fl_head fl \<noteq> None" using links_okD_fl by fastforce
    then obtain e where "Freqlist_isEmpty fl (lfu_nodes s3) = Inr e"
      by (auto simp: Freqlist_isEmpty_def)
    with fl True ok3 show ?thesis
      by (simp add: lfu_freqlist_at_def bind_err_def)
  qed
  then obtain s4 where
    m: "(if node_freq (lfu_nodes s3 ! ?n) = lfu_minFreq s3 + 1
         then bind_err (lfu_freqlist_at (lfu_minFreq s3) s3) (\<lambda>fl.
              bind_err (Freqlist_isEmpty fl (lfu_nodes s3)) (\<lambda>empty.
                Inr (if empty then s3\<lparr>lfu_minFreq := lfu_minFreq s3 + 1\<rparr> else s3)))
         else Inr s3) = Inr s4" and ok4: "lfu_links_ok s4"
    by blast
  from lfu_addFreqNum_ok [OF ok4] obtain s' where f: "lfu_addFreqNum s4 = Inr s'" and ok': "lfu_links_ok s'"
    by blast
  have "lfu_getInternal ?n s = Inr s'"
    unfolding lfu_getInternal_def using r a m f by (simp add: Let_def bind_err_def)
  with ok' show ?thesis by blast
qed


text \<open>Exact frequencies under a ceiling whose half is 0.\<close>

lemma lfu_handleOverMaxAverageNum_loop_exact:
  "lfu_handleOverMaxAverageNum_loop m s = Inr s' \<Longrightarrow> freq_ok (lfu_nodes s) \<Longrightarrow>
     cpp_div (lfu_maxAverageNum s) 2 = 0 \<Longrightarrow>
     \<exists>zs. freqs (lfu_nodes s') = freqs (lfu_nodes s) @ zs"
proof (induction m arbitrary: s)
  case Nil
  then show ?case by simp
next
  case (Cons it rest)
  let ?n = "snd it"
  let ?f = "\<lambda>s1. if node_freq (lfu_nodes s1 ! ?n) - cpp_div (lfu_maxAverageNum s1) 2 < 1 then 1
              else node_freq (lfu_nodes s1 ! ?n) - cpp_div (lfu_maxAverageNum s1) 2"
  let ?s2 = "\<lambda>s1. s1\<lparr>lfu_nodes := node_set_freq ?n (?f s1) (lfu_nodes s1)\<rparr>"
  from Cons.prems(1) obtain s1 s3 where
    r: "lfu_removeFromFreqList (Some ?n) s = Inr s1" and
    a: "lfu_addToFreqList (Some ?n) (?s2 s1) = Inr s3" and
    l: "lfu_handleOverMaxAverageNum_loop rest s3 = Inr s'"
    by (auto simp: Let_def bind_err_Inr)
  note fr = lfu_removeFromFreqList_frame [OF r]
  note fa = lfu_addToFreqList_frame [OF a]
  have ok1: "freq_ok (lfu_nodes s1)"
    using Cons.prems(2) fr by (auto intro: freq_ok_same)
  have mx1: "lfu_maxAverageNum s1 = lfu_maxAverageNum s"
    using lfu_frame_fields(3) [OF conjunct1 [OF fr]] .
  have f2: "freqs (lfu_nodes (?s2 s1)) = freqs (lfu_nodes s1)"
  proof (cases "?n < length (lfu_nodes s1)")
    case True
    with ok1 have "1 \<le> node_freq (lfu_nodes s1 ! ?n)" by (simp add: freq_ok_def)
    then have "?f s1 = node_freq (lfu_nodes s1 ! ?n)"
      using mx1 Cons.prems(3) by simp
    then have "freqs (lfu_nodes (?s2 s1)) = (freqs (lfu_nodes s1))[?n := freqs (lfu_nodes s1) ! ?n]"
      using True by (simp add: freqs_set_freq freqs_nth del: if_split)
    then show ?thesis by simp
  next
    case False
    then show ?thesis by (simp add: freqs_set_freq length_freqs list_update_beyond del: if_split)
  qed
  from fa obtain zs where zs: "freqs (lfu_nodes s3) = freqs (lfu_nodes (?s2 s1)) @ zs"
    "\<forall>z \<in> set zs. z = 1" by blast
  have e3: "freqs (lfu_nodes s3) = freqs (lfu_nodes s) @ zs"
    using zs(1) f2 fr by simp
  have ok3: "freq_ok (lfu_nodes s3)"
    using Cons.prems(2) e3 zs(2) by (rule freq_ok_append)
  have mx3: "cpp_div (lfu_maxAverageNum s3) 2 = 0"
    using lfu_frame_fields(3) [OF conjunct1 [OF fa]] mx1 Cons.prems(3) by simp
  from Cons.IH [OF l ok3 mx3] obtain zs' where "freqs (lfu_nodes s') = freqs (lfu_nodes s3) @ zs'"
    by blast
  with e3 show ?case by simp
qed

lemma lfu_addFreqNum_exact:
  assumes "lfu_addFreqNum s = Inr s'" "freq_ok (lfu_nodes s)" "cpp_div (lfu_maxAverageNum s) 2 = 0"
  shows "\<exists>zs. freqs (lfu_nodes s') = freqs (lfu_nodes s) @ zs"
    and "lfu_nodeMap s \<noteq> [] \<Longrightarrow>
         lfu_maxAverageNum s < to_int32 (to_size_t (lfu_curTotalNum s + 1) div int (length (lfu_nodeMap s))) \<Longrightarrow>
         lfu_minFreq s' < INT8_MAX"
proof -
  let ?s1 = "s\<lparr>lfu_curTotalNum := lfu_curTotalNum s + 1\<rparr>"
  let ?s2 = "?s1\<lparr>lfu_curAverageNum := lfu_average ?s1\<rparr>"
  have d: "(lfu_curAverageNum ?s2 > lfu_maxAverageNum ?s2 \<and> lfu_handleOverMaxAverageNum ?s2 = Inr s') \<or>
           (\<not> lfu_curAverageNum ?s2 > lfu_maxAverageNum ?s2 \<and> s' = ?s2)"
    using assms(1) by (auto simp: lfu_addFreqNum_def Let_def split: if_splits)
  show "\<exists>zs. freqs (lfu_nodes s') = freqs (lfu_nodes s) @ zs"
  proof -
    from d show ?thesis
    proof
      assume h: "lfu_curAverageNum ?s2 > lfu_maxAverageNum ?s2 \<and> lfu_handleOverMaxAverageNum ?s2 = Inr s'"
      show ?thesis
      proof (cases "lfu_nodeMap s = []")
        case True
        with h have "s' = ?s2" by (simp add: lfu_handleOverMaxAverageNum_def)
        then have "freqs (lfu_nodes s') = freqs (lfu_nodes s) @ []" by simp
        then show ?thesis by blast
      next
        case False
        with h obtain t where l: "lfu_handleOverMaxAverageNum_loop (lfu_nodeMap ?s2) ?s2 = Inr t"
          and u: "lfu_updateMinFreq t = Inr s'"
          by (auto simp: lfu_handleOverMaxAverageNum_def bind_err_Inr)
        from lfu_handleOverMaxAverageNum_loop_exact [OF l] assms(2,3)
        obtain zs where "freqs (lfu_nodes t) = freqs (lfu_nodes s) @ zs" by auto
        moreover from lfu_updateMinFreq_nodes [OF u] have "lfu_nodes s' = lfu_nodes t" by auto
        ultimately show ?thesis by simp
      qed
    next
      assume "\<not> lfu_curAverageNum ?s2 > lfu_maxAverageNum ?s2 \<and> s' = ?s2"
      then have "freqs (lfu_nodes s') = freqs (lfu_nodes s) @ []" by simp
      then show ?thesis by blast
    qed
  qed
  show "lfu_minFreq s' < INT8_MAX"
    if ne: "lfu_nodeMap s \<noteq> []"
      and gt: "lfu_maxAverageNum s < to_int32 (to_size_t (lfu_curTotalNum s + 1) div int (length (lfu_nodeMap s)))"
  proof -
    from ne gt have "lfu_curAverageNum ?s2 > lfu_maxAverageNum ?s2"
      by (simp add: lfu_average_def)
    with d have "lfu_handleOverMaxAverageNum ?s2 = Inr s'" by blast
    from lfu_handleOverMaxAverageNum_below_INT8_MAX [OF this] ne show ?thesis by simp
  qed
qed

lemma lfu_getInternal_exact:
  assumes g: "lfu_getInternal n s = Inr s'" and ok: "freq_ok (lfu_nodes s)"
    and mx: "cpp_div (lfu_maxAverageNum s) 2 = 0" and n: "n < length (lfu_nodes s)"
  shows "node_freq (lfu_nodes s' ! n) = node_freq (lfu_nodes s ! n) + 1"
    and "lfu_nodeMap s \<noteq> [] \<Longrightarrow>
         lfu_maxAverageNum s < to_int32 (to_size_t (lfu_curTotalNum s + 1) div int (length (lfu_nodeMap s))) \<Longrightarrow>
         lfu_minFreq s' < INT8_MAX"
proof -
  let ?s2 = "\<lambda>s1. s1\<lparr>lfu_nodes := node_set_freq n (node_freq (lfu_nodes s1 ! n) + 1) (lfu_nodes s1)\<rparr>"
  from g obtain s1 s3 s4 where
    r: "lfu_removeFromFreqList (Some n) s = Inr s1" and
    a: "lfu_addToFreqList (Some n) (?s2 s1) = Inr s3" and
    m: "(if node_freq (lfu_nodes s3 ! n) = lfu_minFreq s3 + 1
         then bind_err (lfu_freqlist_at (lfu_minFreq s3) s3) (\<lambda>fl.
              bind_err (Freqlist_isEmpty fl (lfu_nodes s3)) (\<lambda>empty.
                Inr (if empty then s3\<lparr>lfu_minFreq := lfu_minFreq s3 + 1\<rparr> else s3)))
         else Inr s3) = Inr s4" and
    f: "lfu_addFreqNum s4 = Inr s'"
    by (auto simp: lfu_getInternal_def Let_def bind_err_Inr)
  note fr = lfu_removeFromFreqList_frame [OF r]
  note fa = lfu_addToFreqList_frame [OF a]
  have l1: "length (lfu_nodes s1) = length (lfu_nodes s)"
    using fr freqs_eq_length [of "lfu_nodes s1" "lfu_nodes s"] by simp
  have f1: "node_freq (lfu_nodes s1 ! n) = node_freq (lfu_nodes s ! n)"
    using fr n freqs_prefix_nth [of "lfu_nodes s1" "lfu_nodes s" "[]" n] by simp
  have ok1: "freq_ok (lfu_nodes s1)" using ok fr by (auto intro: freq_ok_same)
  have p1: "1 \<le> node_freq (lfu_nodes s1 ! n)" using ok1 n l1 by (simp add: freq_ok_def)
  have ok2: "freq_ok (lfu_nodes (?s2 s1))"
    using ok1 p1 by (auto intro!: freq_ok_update [where h = "lfu_nodes s1"] simp: freqs_set_freq)
  from fa obtain zs where zs: "freqs (lfu_nodes s3) = freqs (lfu_nodes (?s2 s1)) @ zs"
    "\<forall>z \<in> set zs. z = 1" by blast
  have ok3: "freq_ok (lfu_nodes s3)" using ok2 zs by (rule freq_ok_append)
  have f3: "node_freq (lfu_nodes s3 ! n) = node_freq (lfu_nodes s ! n) + 1"
    using freqs_prefix_nth [OF zs(1), of n] n l1 f1 by (simp add: node_set_freq_def)
  have l3: "n < length (lfu_nodes s3)"
    using arg_cong [OF zs(1), of length] n l1 by (simp add: length_freqs)
  have e4: "\<exists>mf. s4 = s3\<lparr>lfu_minFreq := mf\<rparr>"
    using m by (auto simp: bind_err_Inr split: if_splits intro: exI [of _ "lfu_minFreq s3"])
  then have n4: "lfu_nodes s4 = lfu_nodes s3" by auto
  have fr13: "lfu_frame s s3"
    using fr fa lfu_frame_nodes [of s1] by (blast intro: lfu_frame_trans)
  have same4: "lfu_nodeMap s4 = lfu_nodeMap s" "lfu_maxAverageNum s4 = lfu_maxAverageNum s"
    "lfu_curTotalNum s4 = lfu_curTotalNum s"
    using e4 lfu_frame_fields [OF fr13] by auto
  have ok4: "freq_ok (lfu_nodes s4)" using ok3 n4 by simp
  have mx4: "cpp_div (lfu_maxAverageNum s4) 2 = 0" using mx same4 by simp
  note E = lfu_addFreqNum_exact [OF f ok4 mx4]
  from E(1) obtain zs' where "freqs (lfu_nodes s') = freqs (lfu_nodes s4) @ zs'" by blast
  from freqs_prefix_nth [OF this, of n] l3 n4 f3
  show "node_freq (lfu_nodes s' ! n) = node_freq (lfu_nodes s ! n) + 1" by simp
  show "lfu_minFreq s' < INT8_MAX"
    if "lfu_nodeMap s \<noteq> []"
      "lfu_maxAverageNum s < to_int32 (to_size_t (lfu_curTotalNum s + 1) div int (length (lfu_nodeMap s)))"
    using E(2) that same4 by simp
qed


text \<open>One entry under capacity 1 and ceiling 1.\<close>

lemma lfu_single_reached:
  "lfu_step (LfuPut 1 ''A'') (MyLfuCache 0 [] 0 1 1) = Inr lfu_single"
  by code_simp

lemma lfu_single_after_0: "lfu_single_after 0 lfu_single"
proof -
  have t: "fl_tails (lfu_freqToFreqList lfu_single) = {2}"
    by (auto simp: fl_tails_def lfu_single_def)
  have l: "links_ok (lfu_freqToFreqList lfu_single) (lfu_nodes lfu_single)"
    unfolding links_ok_def t
    by (auto simp: lfu_single_def nth_Cons' less_Suc_eq numeral_3_eq_3 split: if_splits)
  have "lfu_links_ok lfu_single"
    unfolding lfu_links_ok_def lfu_mid_ok_def lfu_buckets_for_def t
    using l by (simp add: lfu_single_def)
  moreover have "freq_ok (lfu_nodes lfu_single)"
    by (auto simp: freq_ok_def lfu_single_def nth_Cons' less_Suc_eq numeral_3_eq_3)
  ultimately show ?thesis
    by (simp add: lfu_single_after_def) (simp add: lfu_single_def)
qed

lemma to_int32_small: "0 \<le> x \<Longrightarrow> x < 2 ^ 31 \<Longrightarrow> to_int32 (to_size_t x div 1) = x"
  by (simp add: to_int32_def to_size_t_def)

lemma lfu_single_step:
  assumes P: "lfu_single_after n s" and b: "int n + 1 < 2 ^ 31"
  shows "\<exists>s'. lfu_step (LfuGet 1) s = Inr s' \<and> lfu_single_after (Suc n) s'"
proof -
  from P have ok: "lfu_links_ok s" and fo: "freq_ok (lfu_nodes s)" and nm: "lfu_nodeMap s = [(1, 0)]"
    and l0: "0 < length (lfu_nodes s)" and f0: "node_freq (lfu_nodes s ! 0) = int n + 1"
    and tot: "lfu_curTotalNum s = int n" and mx: "lfu_maxAverageNum s = 1"
    by (simp_all add: lfu_single_after_def)
  have it: "(1, 0) \<in> set (lfu_nodeMap s)" using nm by simp
  from lfu_getInternal_ok [OF ok it] obtain s' where
    g: "lfu_getInternal 0 s = Inr s'" and ok': "lfu_links_ok s'" by auto
  have st: "lfu_step (LfuGet 1) s = Inr s'"
    using g nm by (simp add: lfu_get_ref_def bind_err_def)
  note F = lfu_getInternal_frame [OF g fo]
  have c0: "cpp_div (lfu_maxAverageNum s) 2 = 0" using mx by (simp add: cpp_div_def)
  note E = lfu_getInternal_exact [OF g fo c0 l0]
  have "lfu_minFreq s' < INT8_MAX" if "2 \<le> Suc n"
  proof -
    have "to_int32 (to_size_t (lfu_curTotalNum s + 1) div int (length (lfu_nodeMap s))) = int n + 1"
      using tot nm b to_int32_small [of "int n + 1"] by simp
    with that mx nm E(2) show ?thesis by simp
  qed
  with F E(1) ok' nm f0 tot mx l0 have "lfu_single_after (Suc n) s'"
    by (auto simp: lfu_single_after_def)
  with st show ?thesis by blast
qed

lemma lfu_single_run:
  "lfu_single_after m s \<Longrightarrow> int m + int n < 2 ^ 31 \<Longrightarrow>
     \<exists>s'. run_ops lfu_step (replicate n (LfuGet 1)) s = Inr s' \<and> lfu_single_after (m + n) s'"
proof (induction n arbitrary: m s)
  case 0
  then show ?case by simp
next
  case (Suc n)
  from Suc.prems(2) have "int m + 1 < 2 ^ 31" by simp
  from lfu_single_step [OF Suc.prems(1) this] obtain s1 where
    st: "lfu_step (LfuGet 1) s = Inr s1" and P1: "lfu_single_after (Suc m) s1" by blast
  from Suc.prems(2) have "int (Suc m) + int n < 2 ^ 31" by simp
  from Suc.IH [OF P1 this] obtain s' where
    "run_ops lfu_step (replicate n (LfuGet 1)) s1 = Inr s'" "lfu_single_after (Suc m + n) s'"
    by blast
  with st show ?case by (simp add: bind_err_def)
qed

lemma lfu_minFreq_after_126_gets:
  "\<exists>s. run_ops lfu_step (LfuPut (1::int) ''A'' # replicate 126 (LfuGet 1)) (MyLfuCache 0 [] 0 1 1) = Inr s
       \<and> lfu_entries (Inr s) = Inr [(1, 127)] \<and> lfu_minFreq s < 127"
proof -
  from lfu_single_run [OF lfu_single_after_0, of 126] obtain s where
    r: "run_ops lfu_step (replicate 126 (LfuGet 1)) lfu_single = Inr s"
    and P: "lfu_single_after 126 s" by auto
  have "run_ops lfu_step (LfuPut 1 ''A'' # replicate 126 (LfuGet 1)) (MyLfuCache 0 [] 0 1 1) = Inr s"
    using lfu_single_reached r by (simp add: bind_err_def)
  moreover have "lfu_entries (Inr s) = Inr [(1, 127)]"
    using P by (simp add: lfu_single_after_def lfu_entries_def bind_err_def)
  moreover have "lfu_minFreq s < 127"
    using P by (simp add: lfu_single_after_def INT8_MAX_def)
  ultimately show ?thesis by blast
qed

lemma lfu_negative_ceiling_run:
  "lfu_counters (run_ops lfu_step [LfuPut 1 ''A'', LfuGet 1] (MyLfuCache (0::int) [] 0 1 (- 300)))
     = Inr (1, 1, 1)
   \<and> lfu_entries (run_ops lfu_step [LfuPut 1 ''A'', LfuGet 1] (MyLfuCache (0::int) [] 0 1 (- 300)))
     = Inr [(1, 152)]
   \<and> lfu_bucket_keys 1 (run_ops lfu_step [LfuPut 1 ''A'', LfuGet 1] (MyLfuCache (0::int) [] 0 1 (- 300)))
     = Inr (Some [])
   \<and> lfu_bucket_keys 2 (run_ops lfu_step [LfuPut 1 ''A'', LfuGet 1] (MyLfuCache (0::int) [] 0 1 (- 300)))
     = Inr (Some [])
   \<and> lfu_bucket_keys 152 (run_ops lfu_step [LfuPut 1 ''A'', LfuGet 1] (MyLfuCache (0::int) [] 0 1 (- 300)))
     = Inr (Some [1])"
  by code_simp

text \<open>
  C4. The claim has the rebalance leave \<^verbatim>\<open>minFreq_\<close> at the smallest key of a bucket
  with a member. On an engine of capacity 1 and ceiling 1, \<^verbatim>\<open>put(1,"A")\<close> followed by 126
  \<^verbatim>\<open>get(1)\<close> returns without undefined behaviour, the only entry has frequency 127, and
  \<^verbatim>\<open>minFreq_\<close> is below 127. On an engine of capacity 1 and ceiling -300 (the constructor
  accepts any \<^verbatim>\<open>int\<close>), \<^verbatim>\<open>put(1,"A")\<close> then \<^verbatim>\<open>get(1)\<close> has the rebalance subtract
  -300 / 2 = -150: the entry moves to bucket 152, buckets 1 and 2 are empty, and
  \<^verbatim>\<open>minFreq_\<close> is 1.
\<close>

theorem lfu_rebalance_minFreq_capped:
  "(\<exists>s. run_ops lfu_step (LfuPut (1::int) ''A'' # replicate 126 (LfuGet 1)) (MyLfuCache 0 [] 0 1 1) = Inr s
       \<and> lfu_entries (Inr s) = Inr [(1, 127)] \<and> lfu_minFreq s < 127)
   \<and> lfu_counters (run_ops lfu_step [LfuPut 1 ''A'', LfuGet 1] (MyLfuCache (0::int) [] 0 1 (- 300)))
     = Inr (1, 1, 1)
   \<and> lfu_entries (run_ops lfu_step [LfuPut 1 ''A'', LfuGet 1] (MyLfuCache (0::int) [] 0 1 (- 300)))
     = Inr [(1, 152)]
   \<and> lfu_bucket_keys 1 (run_ops lfu_step [LfuPut 1 ''A'', LfuGet 1] (MyLfuCache (0::int) [] 0 1 (- 300)))
     = Inr (Some [])
   \<and> lfu_bucket_keys 2 (run_ops lfu_step [LfuPut 1 ''A'', LfuGet 1] (MyLfuCache (0::int) [] 0 1 (- 300)))
     = Inr (Some [])
   \<and> lfu_bucket_keys 152 (run_ops lfu_step [LfuPut 1 ''A'', LfuGet 1] (MyLfuCache (0::int) [] 0 1 (- 300)))
     = Inr (Some [1])"
  using lfu_minFreq_after_126_gets lfu_negative_ceiling_run by (rule conjI)

end
